theory Spec2Isabelle
  imports Main "HOL-Library.Char_ord" "HOL-Library.List_Lexorder"
    "HOL-Library.Sublist"
begin

section \<open>Errors\<close>

text \<open>
  Go reports a failure either as an \<open>error\<close> value returned by the function or as a
  run-time panic. Both are values of the model, kept apart by their constructors:
  \<open>Panic_index_out_of_range i n\<close> is the run-time panic
  \<^verbatim>\<open>index out of range [i] with length n\<close>, raised by an index expression and not
  returned by any function of the program; every other constructor is an \<open>error\<close>
  value that the program returns.
\<close>

datatype errno = EEXIST | ENOENT | ENOTDIR | EISDIR | EACCES

datatype error =
    MissingVariable string              \<comment> \<open>\<^verbatim>\<open>fmt.Errorf("Error, missing variable '%v'", name)\<close>\<close>
  | Panic_index_out_of_range nat nat    \<comment> \<open>run-time panic of an index expression\<close>
  | ConfigError string                  \<comment> \<open>\<^verbatim>\<open>errors.New(...)\<close> of the flag validation\<close>
  | FlagParseError string               \<comment> \<open>error of \<^verbatim>\<open>flagSet.Parse\<close>\<close>
  | PathError string string errno       \<comment> \<open>\<^verbatim>\<open>*fs.PathError\<close>: operation, path, cause\<close>
  | TemplateSyntaxError string          \<comment> \<open>error of \<^verbatim>\<open>Parse\<close> of the template engine\<close>
  | TemplateEvalError error             \<comment> \<open>error of \<^verbatim>\<open>Execute\<close>, wrapping its cause\<close>

fun is_panic :: "error \<Rightarrow> bool" where
  "is_panic (Panic_index_out_of_range i n) = True"
| "is_panic e = False"

text \<open>An index expression \<^verbatim>\<open>xs[i]\<close> on a slice: it panics out of range.\<close>

definition index :: "'a list \<Rightarrow> nat \<Rightarrow> error + 'a" where
  "index xs i = (if i < length xs then Inr (xs ! i) else Inl (Panic_index_out_of_range i (length xs)))"

section \<open>The functions of package \<^verbatim>\<open>strings\<close> that the program calls\<close>

text \<open>
  A Go string is a sequence of bytes: \<^typ>\<open>string\<close>, with \<^term>\<open>length\<close> counting bytes.
\<close>

definition HasPrefix :: "string \<Rightarrow> string \<Rightarrow> bool" where
  "HasPrefix s p = (take (length p) s = p)"

text \<open>
  \<^verbatim>\<open>strings.Index(s, substr)\<close>: the index of the first instance of \<open>substr\<close> in \<open>s\<close>;
  Go's \<open>-1\<close> is \<open>None\<close>.
\<close>

fun Index :: "string \<Rightarrow> string \<Rightarrow> nat option" where
  "Index [] substr = (if substr = [] then Some 0 else None)"
| "Index (c # s) substr =
     (if HasPrefix (c # s) substr then Some 0 else map_option Suc (Index s substr))"

text \<open>
  \<^verbatim>\<open>utf8.DecodeRuneInString\<close>, the width in bytes of the first UTF-8 sequence of \<open>s\<close>:
  0 for the empty string, 1 for an ASCII byte and for an invalid or short encoding,
  otherwise the size 2, 3 or 4 given by the first byte, when the second byte lies in the
  accept range of the first and the others are continuation bytes.
\<close>

definition in_range :: "string \<Rightarrow> nat \<Rightarrow> nat \<Rightarrow> nat \<Rightarrow> bool" where
  "in_range s i lo hi = (lo \<le> (of_char (s ! i) :: nat) \<and> (of_char (s ! i) :: nat) \<le> hi)"

definition decode_size :: "string \<Rightarrow> nat \<Rightarrow> nat \<Rightarrow> nat \<Rightarrow> nat" where
  "decode_size s sz lo hi =
     (if length s < sz then 1
      else if \<not> in_range s 1 lo hi then 1
      else if sz \<le> 2 then 2
      else if \<not> in_range s 2 0x80 0xBF then 1
      else if sz \<le> 3 then 3
      else if \<not> in_range s 3 0x80 0xBF then 1
      else 4)"

definition DecodeRuneInString_size :: "string \<Rightarrow> nat" where
  "DecodeRuneInString_size s =
     (if s = [] then 0
      else let s0 = (of_char (s ! 0) :: nat) in
        if s0 < 0x80 then 1
        else if s0 < 0xC2 then 1
        else if s0 < 0xE0 then decode_size s 2 0x80 0xBF
        else if s0 = 0xE0 then decode_size s 3 0xA0 0xBF
        else if s0 < 0xED then decode_size s 3 0x80 0xBF
        else if s0 = 0xED then decode_size s 3 0x80 0x9F
        else if s0 < 0xF0 then decode_size s 3 0x80 0xBF
        else if s0 = 0xF0 then decode_size s 4 0x90 0xBF
        else if s0 < 0xF4 then decode_size s 4 0x80 0xBF
        else if s0 = 0xF4 then decode_size s 4 0x80 0x8F
        else 1)"

lemma decode_size_pos: "0 < decode_size s sz lo hi"
  by (simp add: decode_size_def)

lemma DecodeRuneInString_size_pos: "s \<noteq> [] \<Longrightarrow> 0 < DecodeRuneInString_size s"
  by (simp add: DecodeRuneInString_size_def Let_def decode_size_pos)

text \<open>\<^verbatim>\<open>utf8.RuneCountInString\<close>: the number of UTF-8 sequences, an invalid byte counting as one.\<close>

function RuneCountInString :: "string \<Rightarrow> nat" where
  "RuneCountInString s =
     (if s = [] then 0 else Suc (RuneCountInString (drop (DecodeRuneInString_size s) s)))"
  by pat_completeness auto
termination
  by (relation "measure length") (auto simp: DecodeRuneInString_size_pos)

declare RuneCountInString.simps [simp del]

text \<open>
  \<^verbatim>\<open>strings.explode(s, n)\<close>: \<open>s\<close> cut into its UTF-8 sequences, at most \<open>n\<close> of them
  (\<open>n < 0\<close>: no limit), the last one holding the rest of \<open>s\<close>.
\<close>

fun explode_loop :: "nat \<Rightarrow> string \<Rightarrow> string list" where
  "explode_loop 0 s = [s]"
| "explode_loop (Suc k) s =
     take (DecodeRuneInString_size s) s # explode_loop k (drop (DecodeRuneInString_size s) s)"

definition explode :: "string \<Rightarrow> int \<Rightarrow> string list" where
  "explode s n =
     (let l = RuneCountInString s;
          n' = (if n < 0 \<or> n > int l then l else nat n)
      in if n' = 0 then [] else explode_loop (n' - 1) s)"

text \<open>
  \<^verbatim>\<open>strings.Count(s, substr)\<close>: the number of non-overlapping instances of \<open>substr\<close>
  in \<open>s\<close>, and the number of UTF-8 sequences plus one when \<open>substr\<close> is empty.
\<close>

lemma Index_bound: "Index s substr = Some i \<Longrightarrow> i + length substr \<le> length s"
proof (induction s arbitrary: i)
  case Nil
  then show ?case by (simp split: if_splits)
next
  case (Cons c s)
  show ?case
  proof (cases "HasPrefix (c # s) substr")
    case True
    then have "length (take (length substr) (c # s)) = length substr"
      by (simp only: HasPrefix_def)
    then have "length substr \<le> length (c # s)"
      by simp
    with True Cons.prems show ?thesis by simp
  next
    case False
    with Cons.prems obtain j where "Index s substr = Some j" "i = Suc j" by auto
    with Cons.IH show ?thesis by simp
  qed
qed

function Count :: "string \<Rightarrow> string \<Rightarrow> nat" where
  "Count s substr =
     (if substr = [] then RuneCountInString s + 1
      else case Index s substr of
             None \<Rightarrow> 0
           | Some i \<Rightarrow> Suc (Count (drop (i + length substr) s) substr))"
  by pat_completeness auto
termination
proof (relation "measure (\<lambda>(s, substr). length s)")
  show "wf (measure (\<lambda>(s, substr). length s))" by simp
next
  fix s substr :: string and i :: nat
  assume ne: "substr \<noteq> []" and ix: "Index s substr = Some i"
  have "i + length substr \<le> length s"
    using ix by (rule Index_bound)
  moreover have "0 < length substr"
    using ne by simp
  ultimately have "length (drop (i + length substr) s) < length s"
    unfolding length_drop by linarith
  then show "((drop (i + length substr) s, substr), (s, substr)) \<in> measure (\<lambda>(s, substr). length s)"
    by simp
qed

declare Count.simps [simp del]

text \<open>
  \<^verbatim>\<open>strings.genSplit(s, sep, sepSave, n)\<close>. The loop \<^verbatim>\<open>for i < n\<close> runs at most
  \<open>n - 1\<close> times, cutting \<open>s\<close> at the first instance of \<open>sep\<close> each time, and stops early
  when \<open>sep\<close> is not found; the rest of \<open>s\<close> is the last element.
\<close>

fun genSplit_loop :: "nat \<Rightarrow> string \<Rightarrow> string \<Rightarrow> nat \<Rightarrow> string list" where
  "genSplit_loop 0 s sep sepSave = [s]"
| "genSplit_loop (Suc k) s sep sepSave =
     (case Index s sep of
        None \<Rightarrow> [s]
      | Some m \<Rightarrow> take (m + sepSave) s # genSplit_loop k (drop (m + length sep) s) sep sepSave)"

definition genSplit :: "string \<Rightarrow> string \<Rightarrow> nat \<Rightarrow> int \<Rightarrow> string list" where
  "genSplit s sep sepSave n =
     (if n = 0 then []
      else if sep = [] then explode s n
      else let n1 = (if n < 0 then Count s sep + 1 else nat n);
               n2 = (if n1 > length s + 1 then length s + 1 else n1)
           in genSplit_loop (n2 - 1) s sep sepSave)"

definition Split :: "string \<Rightarrow> string \<Rightarrow> string list" where
  "Split s sep = genSplit s sep 0 (-1)"

definition SplitN :: "string \<Rightarrow> string \<Rightarrow> int \<Rightarrow> string list" where
  "SplitN s sep n = genSplit s sep 0 n"

text \<open>
  \<^verbatim>\<open>strings.Trim(s, cutset)\<close> for a cutset of one ASCII byte, which is how the program
  calls it: \<^verbatim>\<open>trimLeftByte(trimRightByte(s, c), c)\<close>.
\<close>

fun trimLeftByte :: "string \<Rightarrow> char \<Rightarrow> string" where
  "trimLeftByte [] c = []"
| "trimLeftByte (x # s) c = (if x = c then trimLeftByte s c else x # s)"

function trimRightByte :: "string \<Rightarrow> char \<Rightarrow> string" where
  "trimRightByte s c = (if s \<noteq> [] \<and> last s = c then trimRightByte (butlast s) c else s)"
  by pat_completeness auto
termination
  by (relation "measure (\<lambda>(s, c). length s)") auto

declare trimRightByte.simps [simp del]

definition Trim :: "string \<Rightarrow> char \<Rightarrow> string" where
  "Trim s c = (if s = [] then s else trimLeftByte (trimRightByte s c) c)"

text \<open>\<^verbatim>\<open>strings.Join(elems, sep)\<close>: the elements in order, \<open>sep\<close> between them.\<close>

fun strings_Join :: "string list \<Rightarrow> string \<Rightarrow> string" where
  "strings_Join [] sep = []"
| "strings_Join [a] sep = a"
| "strings_Join (a # b # elems) sep = a @ sep @ strings_Join (b # elems) sep"

section \<open>Template context\<close>

text \<open>
  \<^verbatim>\<open>type TemplateContext struct { envs map[string]string }\<close>
\<close>

record TemplateContext =
  envs :: "string \<rightharpoonup> string"

text \<open>
  \<^verbatim>\<open>NewTemplateContext\<close> reads \<^verbatim>\<open>os.Environ()\<close>, here the argument \<open>environ\<close>: the
  entries of the process environment, each name once (Go keeps the first entry of a name
  and drops the later ones; entries without \<open>=\<close> are kept as they are). The body
  of its loop indexes the result of \<^verbatim>\<open>SplitN\<close> at 0 and at 1 without a check, so an
  entry without \<open>=\<close> panics.
\<close>

fun NewTemplateContext_loop :: "string list \<Rightarrow> (string \<rightharpoonup> string) \<Rightarrow> error + (string \<rightharpoonup> string)" where
  "NewTemplateContext_loop [] m = Inr m"
| "NewTemplateContext_loop (str # rest) m =
     (let substrs = SplitN str ''='' 2 in
      case index substrs 0 of
        Inl e \<Rightarrow> Inl e
      | Inr k \<Rightarrow>
          (case index substrs 1 of
             Inl e \<Rightarrow> Inl e
           | Inr v \<Rightarrow> NewTemplateContext_loop rest (m(k \<mapsto> Trim v (CHR 0x0A)))))"

definition NewTemplateContext :: "string list \<Rightarrow> error + TemplateContext" where
  "NewTemplateContext environ =
     (case NewTemplateContext_loop environ Map.empty of
        Inl e \<Rightarrow> Inl e
      | Inr m \<Rightarrow> Inr \<lparr>envs = m\<rparr>)"

definition Env :: "TemplateContext \<Rightarrow> string \<Rightarrow> error + string" where
  "Env tx name =
     (case envs tx name of
        None \<Rightarrow> Inl (MissingVariable name)
      | Some v \<Rightarrow> Inr v)"

definition List :: "TemplateContext \<Rightarrow> string \<Rightarrow> string \<Rightarrow> error + string list" where
  "List tx name delimiter =
     (case Env tx name of
        Inl err \<Rightarrow> Inl err
      | Inr env \<Rightarrow> Inr (Split env delimiter))"

fun Dict_loop :: "string list \<Rightarrow> string \<Rightarrow> (string \<rightharpoonup> string) \<Rightarrow> error + (string \<rightharpoonup> string)" where
  "Dict_loop [] kvDelimeter dict = Inr dict"
| "Dict_loop (substr # rest) kvDelimeter dict =
     (let v = SplitN substr kvDelimeter 2 in
      case index v 0 of
        Inl e \<Rightarrow> Inl e
      | Inr k \<Rightarrow>
          (case index v 1 of
             Inl e \<Rightarrow> Inl e
           | Inr x \<Rightarrow> Dict_loop rest kvDelimeter (dict(k \<mapsto> x))))"

definition Dict :: "TemplateContext \<Rightarrow> string \<Rightarrow> string \<Rightarrow> string \<Rightarrow> error + (string \<rightharpoonup> string)" where
  "Dict tx name itemDelimeter kvDelimeter =
     (case Env tx name of
        Inl err \<Rightarrow> Inl err
      | Inr env \<Rightarrow> Dict_loop (Split env itemDelimeter) kvDelimeter Map.empty)"

definition Exist :: "TemplateContext \<Rightarrow> string \<Rightarrow> bool" where
  "Exist tx name = (case envs tx name of None \<Rightarrow> False | Some _ \<Rightarrow> True)"

definition NotExist :: "TemplateContext \<Rightarrow> string \<Rightarrow> bool" where
  "NotExist tx name = (case envs tx name of None \<Rightarrow> True | Some _ \<Rightarrow> False)"

text \<open>
  The words of the specification for the pairs of \<open>Dict\<close>: an item is split on the first
  occurrence of the delimiter into a key, the part before it, and a value, the part after
  it. \<open>None\<close> when the delimiter does not occur.
\<close>

definition first_cut :: "string \<Rightarrow> string \<Rightarrow> (string \<times> string) option" where
  "first_cut item sep =
     map_option (\<lambda>i. (take i item, drop (i + length sep) item)) (Index item sep)"

section \<open>Flags\<close>

record Flags =
  IF :: string
  OF :: string
  ID :: string
  OD :: string

text \<open>
  \<^verbatim>\<open>NewFlags\<close> parses the command line with package \<^verbatim>\<open>flag\<close> and then validates.
  The model takes the outcome of \<^verbatim>\<open>flagSet.Parse\<close> as its argument: the flags as parsed
  and the error of the parser, if any. The \<^verbatim>\<open>switch\<close> takes the first case that holds
  and has no default.
\<close>

definition NewFlags :: "Flags \<Rightarrow> error option \<Rightarrow> Flags \<times> error option" where
  "NewFlags flags parse_err =
     (case parse_err of
        Some err \<Rightarrow> (flags, Some err)
      | None \<Rightarrow>
          (flags,
           if IF flags = [] \<and> ID flags = [] then
             Some (ConfigError ''Required input file or input dir'')
           else if IF flags \<noteq> [] \<and> OF flags = [] then
             Some (ConfigError ''Required output file when using input file'')
           else if ID flags \<noteq> [] \<and> OD flags = [] then
             Some (ConfigError ''Required output dir when using input dir'')
           else None))"

section \<open>The file system\<close>

text \<open>
  The file system is a tree: a node is a plain file with its content or a directory with
  its entries, each a name and a node, and a flag that says whether the directory can be
  read. The root of the tree is the root directory and also the working directory of the
  process. Symbolic links, other file types and permissions beyond the read flag are left
  out.
\<close>

datatype node = File string | Dir bool "(string \<times> node) list"

text \<open>
  The elements of a path, cut at every \<open>/\<close> (the separator of Unix).
\<close>

fun path_elems :: "string \<Rightarrow> string list" where
  "path_elems [] = [[]]"
| "path_elems (c # s) =
     (if c = CHR ''/'' then [] # path_elems s
      else case path_elems s of e # es \<Rightarrow> (c # e) # es | [] \<Rightarrow> [[c]])"

text \<open>
  The names a directory can hold: not empty, without separator, and neither \<open>.\<close> nor \<open>..\<close>.
\<close>

definition valid_name :: "string \<Rightarrow> bool" where
  "valid_name n = (n \<noteq> [] \<and> CHR ''/'' \<notin> set n \<and> n \<noteq> ''.'' \<and> n \<noteq> ''..'')"

text \<open>
  How the system resolves a path to a place in the tree, the list of names from the root:
  empty elements and \<open>.\<close> are skipped, \<open>..\<close> goes one directory up (and stays at the
  root), any other element goes down. The walk is lexical: \<open>..\<close> is taken on the path, not
  on the tree.
\<close>

fun resolve_elems :: "string list \<Rightarrow> string list \<Rightarrow> string list" where
  "resolve_elems st [] = st"
| "resolve_elems st (e # es) =
     resolve_elems
       (if e = [] \<or> e = ''.'' then st else if e = ''..'' then butlast st else st @ [e]) es"

definition resolve :: "string \<Rightarrow> string list" where
  "resolve path = resolve_elems [] (path_elems path)"

text \<open>
  The node at a place of the tree. A place below a plain file is \<open>ENOTDIR\<close>, a name that
  a directory lacks is \<open>ENOENT\<close>; of two entries with one name the first is found.
\<close>

fun lookup :: "node \<Rightarrow> string list \<Rightarrow> errno + node"
  and lookup_entries :: "(string \<times> node) list \<Rightarrow> string \<Rightarrow> string list \<Rightarrow> errno + node" where
  "lookup n [] = Inr n"
| "lookup (File d) (e # es) = Inl ENOTDIR"
| "lookup (Dir r ents) (e # es) = lookup_entries ents e es"
| "lookup_entries [] e es = Inl ENOENT"
| "lookup_entries ((n, c) # ents) e es =
     (if n = e then lookup c es else lookup_entries ents e es)"

text \<open>
  \<open>put fs cs new\<close> sets the node at the place \<open>cs\<close> to \<open>new\<close>, adding an entry to the
  directory above when the last name is not there yet.
\<close>

fun put :: "node \<Rightarrow> string list \<Rightarrow> node \<Rightarrow> node"
  and put_entries :: "(string \<times> node) list \<Rightarrow> string \<Rightarrow> string list \<Rightarrow> node \<Rightarrow> (string \<times> node) list" where
  "put n [] new = new"
| "put (File d) (e # es) new = File d"
| "put (Dir r ents) (e # es) new = Dir r (put_entries ents e es new)"
| "put_entries [] e es new = (if es = [] then [(e, new)] else [])"
| "put_entries ((n, c) # ents) e es new =
     (if n = e then (n, put c es new) # ents else (n, c) # put_entries ents e es new)"

section \<open>The functions of package \<^verbatim>\<open>path/filepath\<close> that the program calls\<close>

text \<open>
  \<^verbatim>\<open>filepath.Clean\<close> on Unix. Go's loop reads the path byte by byte and writes the
  result into a buffer; here the same loop runs on the elements of the path, \<open>out\<close> being
  the elements written so far. An empty element and \<open>.\<close> are dropped. For \<open>..\<close> the last
  element written is removed when there is one that is not itself \<open>..\<close> (Go: \<^verbatim>\<open>out.w > dotdot\<close>);
  otherwise \<open>..\<close> is written when the path is not rooted, and dropped when it is. The
  result is the elements joined by the separator, after the leading separator of a rooted
  path, and \<open>.\<close> when nothing was written.
\<close>

fun clean_elems :: "bool \<Rightarrow> string list \<Rightarrow> string list \<Rightarrow> string list" where
  "clean_elems rooted out [] = out"
| "clean_elems rooted out (e # es) =
     clean_elems rooted
       (if e = [] \<or> e = ''.'' then out
        else if e = ''..'' then
          (if out \<noteq> [] \<and> last out \<noteq> ''..'' then butlast out
           else if \<not> rooted then out @ [''..'']
           else out)
        else out @ [e]) es"

definition Clean :: "string \<Rightarrow> string" where
  "Clean path =
     (if path = [] then ''.''
      else let rooted = (hd path = CHR ''/'');
               out = clean_elems rooted [] (path_elems path)
           in if rooted then CHR ''/'' # strings_Join out ''/''
              else if out = [] then ''.''
              else strings_Join out ''/'')"

text \<open>
  \<^verbatim>\<open>filepath.Join(elem...)\<close>: leading empty elements are ignored, the others are joined
  by the separator and the result is cleaned; no element at all gives the empty string.
\<close>

fun filepath_Join :: "string list \<Rightarrow> string" where
  "filepath_Join [] = []"
| "filepath_Join (e # elem) =
     (if e \<noteq> [] then Clean (strings_Join (e # elem) ''/'') else filepath_Join elem)"

subsection \<open>A joined name resolves to the entry of that name\<close>

text \<open>
  For the termination of the recursive listings below: joining a valid name to a path
  and resolving the result gives the place of the path, one name further down.
\<close>

lemma path_elems_ne: "path_elems s \<noteq> []"
  by (induction s) (auto split: list.splits)

lemma path_elems_append:
  "path_elems (a @ CHR ''/'' # b) = path_elems a @ path_elems b"
proof (induction a)
  case Nil
  then show ?case by simp
next
  case (Cons c a)
  then show ?case
    using path_elems_ne [of a] by (cases "path_elems a") auto
qed

lemma path_elems_no_sep: "CHR ''/'' \<notin> set n \<Longrightarrow> path_elems n = [n]"
  by (induction n) auto

lemma path_elems_sep_free: "e \<in> set (path_elems s) \<Longrightarrow> CHR ''/'' \<notin> set e"
proof (induction s arbitrary: e)
  case Nil
  then show ?case by simp
next
  case (Cons c s)
  show ?case
  proof (cases "c = CHR ''/''")
    case True
    with Cons show ?thesis by auto
  next
    case False
    obtain x xs where x: "path_elems s = x # xs"
      using path_elems_ne [of s] by (cases "path_elems s") auto
    with False Cons.prems have "e = c # x \<or> e \<in> set xs" by simp
    moreover have "CHR ''/'' \<notin> set x" using Cons.IH [of x] x by simp
    moreover have "e \<in> set xs \<Longrightarrow> CHR ''/'' \<notin> set e" using Cons.IH [of e] x by simp
    ultimately show ?thesis using False by auto
  qed
qed

lemma path_elems_Join:
  "es \<noteq> [] \<Longrightarrow> \<forall>e \<in> set es. CHR ''/'' \<notin> set e \<Longrightarrow> path_elems (strings_Join es ''/'') = es"
proof (induction es)
  case Nil
  then show ?case by simp
next
  case (Cons e es)
  show ?case
  proof (cases "es = []")
    case True
    with Cons.prems show ?thesis by (simp add: path_elems_no_sep)
  next
    case False
    then have "strings_Join (e # es) ''/'' = e @ CHR ''/'' # strings_Join es ''/''"
      by (cases es) auto
    then have "path_elems (strings_Join (e # es) ''/'') = path_elems e @ path_elems (strings_Join es ''/'')"
      by (simp add: path_elems_append)
    with Cons False show ?thesis by (simp add: path_elems_no_sep)
  qed
qed

lemma resolve_elems_append:
  "resolve_elems st (xs @ ys) = resolve_elems (resolve_elems st xs) ys"
  by (induction xs arbitrary: st) auto

definition real_elem :: "string \<Rightarrow> bool" where
  "real_elem e = (e \<noteq> [] \<and> e \<noteq> ''.'' \<and> e \<noteq> ''..'')"

lemma resolve_elems_snoc_real:
  "real_elem e \<Longrightarrow> resolve_elems st (xs @ [e]) = resolve_elems st xs @ [e]"
  by (simp add: resolve_elems_append real_elem_def)

lemma resolve_elems_snoc_dotdot:
  "resolve_elems st (xs @ [''..'']) = butlast (resolve_elems st xs)"
  by (simp add: resolve_elems_append)

lemma clean_elems_resolve:
  "\<forall>e \<in> set out. e \<noteq> [] \<and> e \<noteq> ''.'' \<Longrightarrow>
   resolve_elems base (clean_elems False out es) = resolve_elems (resolve_elems base out) es"
proof (induction es arbitrary: out)
  case Nil
  then show ?case by simp
next
  case (Cons e es)
  let ?out' = "(if e = [] \<or> e = ''.'' then out
        else if e = ''..'' then
          (if out \<noteq> [] \<and> last out \<noteq> ''..'' then butlast out
           else if \<not> False then out @ [''..'']
           else out)
        else out @ [e])"
  let ?st' = "(if e = [] \<or> e = ''.'' then resolve_elems base out
        else if e = ''..'' then butlast (resolve_elems base out)
        else resolve_elems base out @ [e])"
  have inv: "\<forall>x \<in> set ?out'. x \<noteq> [] \<and> x \<noteq> ''.''"
    using Cons.prems by (auto dest: in_set_butlastD)
  have step: "resolve_elems base ?out' = ?st'"
  proof (cases "e = [] \<or> e = ''.''")
    case True
    then show ?thesis by auto
  next
    case False
    show ?thesis
    proof (cases "e = ''..''")
      case True
      show ?thesis
      proof (cases "out \<noteq> [] \<and> last out \<noteq> ''..''")
        case True
        then have r: "real_elem (last out)" using Cons.prems by (simp add: real_elem_def)
        have "resolve_elems base out = resolve_elems base (butlast out @ [last out])"
          using True by simp
        also have "\<dots> = resolve_elems base (butlast out) @ [last out]"
          using r by (rule resolve_elems_snoc_real)
        finally show ?thesis using True \<open>e = ''..''\<close> by simp
      next
        case False
        then show ?thesis using \<open>e = ''..''\<close> by (auto simp add: resolve_elems_snoc_dotdot)
      qed
    next
      case False
      with \<open>\<not> (e = [] \<or> e = ''.'')\<close> have "real_elem e" by (simp add: real_elem_def)
      then show ?thesis using False \<open>\<not> (e = [] \<or> e = ''.'')\<close>
        by (simp add: resolve_elems_snoc_real)
    qed
  qed
  have "resolve_elems base (clean_elems False out (e # es)) = resolve_elems base (clean_elems False ?out' es)"
    by simp
  also have "\<dots> = resolve_elems (resolve_elems base ?out') es"
    using inv by (rule Cons.IH)
  also have "\<dots> = resolve_elems ?st' es" using step by simp
  also have "\<dots> = resolve_elems (resolve_elems base out) (e # es)" by simp
  finally show ?case .
qed

lemma clean_elems_rooted:
  "\<forall>e \<in> set out. real_elem e \<Longrightarrow> clean_elems True out es = resolve_elems out es"
proof (induction es arbitrary: out)
  case Nil
  then show ?case by simp
next
  case (Cons e es)
  let ?out' = "(if e = [] \<or> e = ''.'' then out else if e = ''..'' then butlast out else out @ [e])"
  have inv: "\<forall>x \<in> set ?out'. real_elem x"
    using Cons.prems by (auto simp: real_elem_def dest: in_set_butlastD)
  have "out \<noteq> [] \<Longrightarrow> last out \<noteq> ''..''"
    using Cons.prems last_in_set [of out] by (auto simp: real_elem_def)
  then have "clean_elems True out (e # es) = clean_elems True ?out' es"
    by (cases "out = []") auto
  also have "\<dots> = resolve_elems ?out' es" using inv by (rule Cons.IH)
  finally show ?case by simp
qed

lemma resolve_elems_all_real:
  "\<forall>e \<in> set xs. real_elem e \<Longrightarrow> resolve_elems st xs = st @ xs"
  by (induction xs arbitrary: st) (auto simp: real_elem_def)

lemma resolve_elems_real:
  "\<forall>e \<in> set st. real_elem e \<Longrightarrow> \<forall>e \<in> set (resolve_elems st es). real_elem e"
proof (induction es arbitrary: st)
  case Nil
  then show ?case by simp
next
  case (Cons e es)
  have "\<forall>x \<in> set (if e = [] \<or> e = ''.'' then st else if e = ''..'' then butlast st else st @ [e]). real_elem x"
    using Cons.prems by (auto simp: real_elem_def dest: in_set_butlastD)
  from Cons.IH [OF this] show ?case by simp
qed

lemma resolve_elems_idem:
  "resolve_elems [] (resolve_elems [] es) = resolve_elems [] es"
  using resolve_elems_all_real [of "resolve_elems [] es" "[]"] resolve_elems_real [of "[]" es]
  by simp

lemma clean_elems_set:
  "x \<in> set (clean_elems r out es) \<Longrightarrow> x \<in> set out \<or> x \<in> set es \<or> x = ''..''"
proof (induction es arbitrary: out)
  case Nil
  then show ?case by simp
next
  case (Cons e es)
  from Cons.IH [OF Cons.prems [simplified]] show ?case
    by (auto split: if_splits dest: in_set_butlastD)
qed

lemma resolve_elems_skip: "resolve_elems st ([] # es) = resolve_elems st es"
  by simp

lemma resolve_Clean: "resolve (Clean q) = resolve q"
proof (cases "q = []")
  case True
  then show ?thesis by (simp add: Clean_def resolve_def)
next
  case False
  define rooted where "rooted = (hd q = CHR ''/'')"
  define out where "out = clean_elems rooted [] (path_elems q)"
  have sepfree: "\<forall>e \<in> set out. CHR ''/'' \<notin> set e"
  proof
    fix e assume "e \<in> set out"
    then have "e \<in> set (path_elems q) \<or> e = ''..''"
      unfolding out_def using clean_elems_set [of e rooted "[]" "path_elems q"] by simp
    then show "CHR ''/'' \<notin> set e" using path_elems_sep_free [of e q] by auto
  qed
  have pe: "resolve_elems [] (path_elems (strings_Join out ''/'')) = resolve_elems [] out"
  proof (cases "out = []")
    case True
    then show ?thesis by simp
  next
    case False
    then show ?thesis using sepfree by (simp add: path_elems_Join)
  qed
  have ro: "resolve_elems [] out = resolve q"
  proof (cases rooted)
    case True
    then show ?thesis
      unfolding out_def resolve_def using clean_elems_rooted [of "[]" "path_elems q"]
      by (simp add: resolve_elems_idem)
  next
    case False
    then show ?thesis
      unfolding out_def resolve_def using clean_elems_resolve [of "[]" "[]" "path_elems q"] by simp
  qed
  show ?thesis
  proof (cases rooted)
    case True
    then have "Clean q = CHR ''/'' # strings_Join out ''/''"
      using False by (simp add: Clean_def rooted_def out_def Let_def)
    then have "resolve (Clean q) = resolve_elems [] (path_elems (strings_Join out ''/''))"
      by (simp add: resolve_def)
    with pe ro show ?thesis by simp
  next
    case nr: False
    show ?thesis
    proof (cases "out = []")
      case True
      then have "Clean q = ''.''"
        using False nr by (simp add: Clean_def rooted_def out_def Let_def)
      then have "resolve (Clean q) = []" by (simp add: resolve_def)
      with ro True show ?thesis by simp
    next
      case ne: False
      then have "Clean q = strings_Join out ''/''"
        using False nr by (simp add: Clean_def rooted_def out_def Let_def)
      then have "resolve (Clean q) = resolve_elems [] (path_elems (strings_Join out ''/''))"
        by (simp add: resolve_def)
      with pe ro show ?thesis by simp
    qed
  qed
qed

lemma valid_name_real: "valid_name n \<Longrightarrow> real_elem n"
  by (simp add: valid_name_def real_elem_def)

lemma resolve_Join:
  assumes "valid_name n"
  shows "resolve (filepath_Join [p, n]) = resolve p @ [n]"
proof -
  have n: "n \<noteq> []" "CHR ''/'' \<notin> set n" "real_elem n"
    using assms by (simp_all add: valid_name_def real_elem_def)
  show ?thesis
  proof (cases "p = []")
    case True
    then have "filepath_Join [p, n] = Clean n" using n(1) by simp
    then have "resolve (filepath_Join [p, n]) = resolve n" by (simp add: resolve_Clean)
    also have "\<dots> = [n]"
      using n by (simp add: resolve_def path_elems_no_sep real_elem_def)
    finally show ?thesis using True by (simp add: resolve_def)
  next
    case False
    then have "filepath_Join [p, n] = Clean (p @ CHR ''/'' # n)" by simp
    then have "resolve (filepath_Join [p, n]) = resolve (p @ CHR ''/'' # n)"
      by (simp add: resolve_Clean)
    also have "\<dots> = resolve_elems [] (path_elems p @ [n])"
      using n(2) by (simp add: resolve_def path_elems_append path_elems_no_sep)
    also have "\<dots> = resolve p @ [n]"
      unfolding resolve_def using n(3) by (rule resolve_elems_snoc_real)
    finally show ?thesis .
  qed
qed

section \<open>Operations with the file system\<close>

text \<open>
  \<^verbatim>\<open>os.ReadDir(name)\<close> returns the entries of the directory sorted by file name. An
  entry tells its name and whether it is a directory. Entries of the tree whose name no
  directory can hold are not listed. The call fails for the empty path, for a path that
  resolves to nothing or to a plain file, and for a directory that cannot be read.
\<close>

record DirEntry =
  Name :: string
  IsDir :: bool

fun is_dir :: "node \<Rightarrow> bool" where
  "is_dir (Dir r ents) = True"
| "is_dir (File d) = False"

definition os_ReadDir :: "node \<Rightarrow> string \<Rightarrow> error + DirEntry list" where
  "os_ReadDir fs path =
     (if path = [] then Inl (PathError ''open'' path ENOENT)
      else case lookup fs (resolve path) of
        Inl en \<Rightarrow> Inl (PathError ''open'' path en)
      | Inr (File d) \<Rightarrow> Inl (PathError ''open'' path ENOTDIR)
      | Inr (Dir r ents) \<Rightarrow>
          if \<not> r then Inl (PathError ''open'' path EACCES)
          else Inr (sort_key Name
                 (map (\<lambda>(n, c). \<lparr>Name = n, IsDir = is_dir c\<rparr>)
                    (filter (\<lambda>(n, c). valid_name n) ents))))"

text \<open>
  A \<^verbatim>\<open>for ... range\<close> loop whose body may return an error: the body runs on the elements
  in order with the value accumulated so far, and the first error ends the loop.
\<close>

fun foldE :: "('a \<Rightarrow> 'b \<Rightarrow> error + 'b) \<Rightarrow> 'a list \<Rightarrow> 'b \<Rightarrow> error + 'b" where
  "foldE f [] acc = Inr acc"
| "foldE f (x # xs) acc = (case f x acc of Inl err \<Rightarrow> Inl err | Inr acc' \<Rightarrow> foldE f xs acc')"

lemma foldE_cong [fundef_cong]:
  "xs = ys \<Longrightarrow> a = b \<Longrightarrow> (\<And>x acc. x \<in> set ys \<Longrightarrow> f x acc = g x acc) \<Longrightarrow>
   foldE f xs a = foldE g ys b"
proof -
  assume "xs = ys" "a = b" and h: "\<And>x acc. x \<in> set ys \<Longrightarrow> f x acc = g x acc"
  have "foldE f ys c = foldE g ys c" for c
    using h by (induction ys arbitrary: c) (auto split: sum.splits)
  with \<open>xs = ys\<close> \<open>a = b\<close> show ?thesis by simp
qed

lemma lookup_snoc:
  "lookup nd (cs @ [n]) =
     (case lookup nd cs of
        Inl en \<Rightarrow> Inl en
      | Inr (File d) \<Rightarrow> Inl ENOTDIR
      | Inr (Dir r ents) \<Rightarrow> lookup_entries ents n [])"
  and "lookup_entries es e (cs @ [n]) =
     (case lookup_entries es e cs of
        Inl en \<Rightarrow> Inl en
      | Inr (File d) \<Rightarrow> Inl ENOTDIR
      | Inr (Dir r ents) \<Rightarrow> lookup_entries ents n [])"
proof (induction nd cs and es e cs rule: lookup_lookup_entries.induct)
  case (1 n)
  then show ?case by (cases n) auto
qed auto

lemma lookup_entries_found:
  "(n, c) \<in> set ents \<Longrightarrow> \<exists>c'. lookup_entries ents n [] = Inr c' \<and> (n, c') \<in> set ents"
  by (induction ents) auto

lemma size_entry: "(n, c) \<in> set ents \<Longrightarrow> size c < size (Dir r ents)"
  by (induction ents) auto

definition node_size_at :: "node \<Rightarrow> string \<Rightarrow> nat" where
  "node_size_at fs path = (case lookup fs (resolve path) of Inl en \<Rightarrow> 0 | Inr nd \<Rightarrow> size nd)"

lemma os_ReadDir_entry:
  assumes "os_ReadDir fs path = Inr entries" and "entry \<in> set entries"
  shows "node_size_at fs (filepath_Join [path, Name entry]) < node_size_at fs path"
proof -
  from assms(1) obtain ents where
    l: "lookup fs (resolve path) = Inr (Dir True ents)" and
    e: "entries = sort_key Name (map (\<lambda>(n, c). \<lparr>Name = n, IsDir = is_dir c\<rparr>)
                    (filter (\<lambda>(n, c). valid_name n) ents))"
    by (auto simp: os_ReadDir_def split: if_splits sum.splits node.splits)
  from assms(2) e obtain n c where nc: "(n, c) \<in> set ents" "valid_name n" "Name entry = n"
    by auto
  from lookup_entries_found [OF nc(1)] obtain c' where
    c': "lookup_entries ents n [] = Inr c'" "(n, c') \<in> set ents" by blast
  have "resolve (filepath_Join [path, n]) = resolve path @ [n]"
    using nc(2) by (rule resolve_Join)
  then have "lookup fs (resolve (filepath_Join [path, n])) = Inr c'"
    using l c'(1) by (simp add: lookup_snoc del: filepath_Join.simps)
  moreover have "size c' < size (Dir True ents)" using c'(2) by (rule size_entry)
  ultimately show ?thesis using l nc(3) by (simp add: node_size_at_def del: filepath_Join.simps)
qed

text \<open>
  \<^verbatim>\<open>recursiveGetDirs\<close> and \<^verbatim>\<open>recursiveGetFiles\<close>. On an error Go returns the partial list
  together with the error; every caller drops the list, and so does the model.
\<close>

function recursiveGetDirs :: "node \<Rightarrow> string \<Rightarrow> error + string list" where
  "recursiveGetDirs fs path =
     (case os_ReadDir fs path of
        Inl err \<Rightarrow> Inl err
      | Inr entries \<Rightarrow>
          foldE (\<lambda>entry dirs.
              if \<not> IsDir entry then Inr dirs
              else case recursiveGetDirs fs (filepath_Join [path, Name entry]) of
                     Inl err \<Rightarrow> Inl err
                   | Inr subdirs \<Rightarrow>
                       Inr ((dirs @ [Name entry]) @
                            map (\<lambda>subdir. filepath_Join [Name entry, subdir]) subdirs))
            entries [])"
  by pat_completeness auto
termination
  by (relation "measure (\<lambda>(fs, path). node_size_at fs path)") (auto dest: os_ReadDir_entry)

function recursiveGetFiles :: "node \<Rightarrow> string \<Rightarrow> error + string list" where
  "recursiveGetFiles fs path =
     (case os_ReadDir fs path of
        Inl err \<Rightarrow> Inl err
      | Inr entries \<Rightarrow>
          foldE (\<lambda>entry files.
              if \<not> IsDir entry then Inr (files @ [Name entry])
              else case recursiveGetFiles fs (filepath_Join [path, Name entry]) of
                     Inl err \<Rightarrow> Inl err
                   | Inr subfiles \<Rightarrow>
                       Inr (files @ map (\<lambda>subfile. filepath_Join [Name entry, subfile]) subfiles))
            entries [])"
  by pat_completeness auto
termination
  by (relation "measure (\<lambda>(fs, path). node_size_at fs path)") (auto dest: os_ReadDir_entry)

declare recursiveGetDirs.simps [simp del] recursiveGetFiles.simps [simp del]

text \<open>
  An example: the source tree of the specification, \<open>src\<close> with \<open>a.txt\<close>, \<open>sub/b.txt\<close> and
  the empty directory \<open>sub/empty\<close>.
\<close>

definition example_fs :: node where
  "example_fs = Dir True [(''src'', Dir True [(''sub'', Dir True [(''empty'', Dir True []), (''b.txt'', File ''Bye '')]), (''a.txt'', File ''Hello '')])]"

text \<open>
  \<^verbatim>\<open>os.Mkdir(name, perm)\<close> creates one directory, readable and empty. It fails with
  \<open>EEXIST\<close> when the path resolves to a node, plain file or directory, and with the error
  of the walk when the directory above is missing or is a plain file. The permission bits
  are not modelled.
\<close>

definition os_Mkdir :: "node \<Rightarrow> string \<Rightarrow> error option \<times> node" where
  "os_Mkdir fs path =
     (if path = [] then (Some (PathError ''mkdir'' path ENOENT), fs)
      else case lookup fs (resolve path) of
        Inr nd \<Rightarrow> (Some (PathError ''mkdir'' path EEXIST), fs)
      | Inl en' \<Rightarrow>
          (case lookup fs (butlast (resolve path)) of
             Inl en \<Rightarrow> (Some (PathError ''mkdir'' path en), fs)
           | Inr (File d) \<Rightarrow> (Some (PathError ''mkdir'' path ENOTDIR), fs)
           | Inr (Dir r ents) \<Rightarrow> (None, put fs (resolve path) (Dir True []))))"

text \<open>
  \<^verbatim>\<open>os.IsExist(err)\<close>: whether the error says that the file exists. It is false for
  \<^verbatim>\<open>nil\<close>.
\<close>

fun os_IsExist :: "error option \<Rightarrow> bool" where
  "os_IsExist (Some (PathError op path EEXIST)) = True"
| "os_IsExist err = False"

definition safeMkdir :: "string \<Rightarrow> node \<Rightarrow> error option \<times> node" where
  "safeMkdir path fs =
     (case os_Mkdir fs path of
        (err, fs') \<Rightarrow> if os_IsExist err then (None, fs') else (err, fs'))"

fun recursiveCopyDir_loop :: "string \<Rightarrow> string list \<Rightarrow> node \<Rightarrow> error option \<times> node" where
  "recursiveCopyDir_loop rmt [] fs = (None, fs)"
| "recursiveCopyDir_loop rmt (dir # dirs) fs =
     (case safeMkdir (filepath_Join [rmt, dir]) fs of
        (Some err, fs') \<Rightarrow> (Some err, fs')
      | (None, fs') \<Rightarrow> recursiveCopyDir_loop rmt dirs fs')"

definition recursiveCopyDir :: "string \<Rightarrow> string \<Rightarrow> node \<Rightarrow> error option \<times> node" where
  "recursiveCopyDir src rmt fs =
     (case safeMkdir rmt fs of
        (Some err, fs') \<Rightarrow> (Some err, fs')
      | (None, fs') \<Rightarrow>
          (case recursiveGetDirs fs' src of
             Inl err \<Rightarrow> (Some err, fs')
           | Inr dirs \<Rightarrow> recursiveCopyDir_loop rmt dirs fs'))"

text \<open>
  \<^verbatim>\<open>os.ReadFile\<close> and \<^verbatim>\<open>os.WriteFile\<close>. Writing creates the file or replaces its
  content; it fails when the path resolves to a directory or the directory above is
  missing or is a plain file, and then changes nothing.
\<close>

definition os_ReadFile :: "node \<Rightarrow> string \<Rightarrow> error + string" where
  "os_ReadFile fs name =
     (if name = [] then Inl (PathError ''open'' name ENOENT)
      else case lookup fs (resolve name) of
        Inl en \<Rightarrow> Inl (PathError ''open'' name en)
      | Inr (Dir r ents) \<Rightarrow> Inl (PathError ''read'' name EISDIR)
      | Inr (File d) \<Rightarrow> Inr d)"

definition os_WriteFile :: "node \<Rightarrow> string \<Rightarrow> string \<Rightarrow> error option \<times> node" where
  "os_WriteFile fs name data =
     (if name = [] then (Some (PathError ''open'' name ENOENT), fs)
      else case lookup fs (resolve name) of
        Inr (Dir r ents) \<Rightarrow> (Some (PathError ''open'' name EISDIR), fs)
      | Inr (File d) \<Rightarrow> (None, put fs (resolve name) (File data))
      | Inl en' \<Rightarrow>
          (case lookup fs (butlast (resolve name)) of
             Inl en \<Rightarrow> (Some (PathError ''open'' name en), fs)
           | Inr (File d) \<Rightarrow> (Some (PathError ''open'' name ENOTDIR), fs)
           | Inr (Dir r ents) \<Rightarrow> (None, put fs (resolve name) (File data))))"

section \<open>Template file\<close>

record TemplateFile =
  InputPath :: string
  Input :: string
  OutputPath :: string
  Output :: string
  TemplateContext :: TemplateContext

definition NewTemplateFile :: "TemplateContext \<Rightarrow> string \<Rightarrow> string \<Rightarrow> TemplateFile" where
  "NewTemplateFile tx inputPath outputPath =
     \<lparr>InputPath = inputPath, Input = [], OutputPath = outputPath, Output = [],
      TemplateContext = tx\<rparr>"

definition LoadInput :: "node \<Rightarrow> TemplateFile \<Rightarrow> error + TemplateFile" where
  "LoadInput fs tf =
     (case os_ReadFile fs (InputPath tf) of
        Inl err \<Rightarrow> Inl err
      | Inr b \<Rightarrow> Inr (tf\<lparr>Input := b\<rparr>))"

text \<open>
  Package \<^verbatim>\<open>text/template\<close> is a parameter of the model: \<open>Parse\<close> takes the name and the
  text of a template and returns the parsed template or an error, \<open>Execute\<close> runs a parsed
  template on the context and returns the text written to the buffer or an error. On an
  error of \<open>Execute\<close> the method \<^verbatim>\<open>Template\<close> returns before it stores the buffer.
\<close>

record 't engine =
  Parse :: "string \<Rightarrow> string \<Rightarrow> error + 't"
  Execute :: "'t \<Rightarrow> TemplateContext \<Rightarrow> error + string"

definition Template :: "'t engine \<Rightarrow> TemplateFile \<Rightarrow> error + TemplateFile" where
  "Template eng tf =
     (case Parse eng (InputPath tf) (Input tf) of
        Inl err \<Rightarrow> Inl err
      | Inr templater \<Rightarrow>
          (case Execute eng templater (TemplateContext tf) of
             Inl err \<Rightarrow> Inl err
           | Inr buf \<Rightarrow> Inr (tf\<lparr>Output := buf\<rparr>)))"

definition SaveOutput :: "TemplateFile \<Rightarrow> node \<Rightarrow> error option \<times> node" where
  "SaveOutput tf fs = os_WriteFile fs (OutputPath tf) (Output tf)"

section \<open>Run\<close>

text \<open>
  The three loops of \<^verbatim>\<open>Run\<close> over the template files. Each returns at the first
  error. The template files are pointers in Go and the loops update them in place; the
  model returns the updated list.
\<close>

fun load_all :: "node \<Rightarrow> TemplateFile list \<Rightarrow> error + TemplateFile list" where
  "load_all fs [] = Inr []"
| "load_all fs (templateFile # rest) =
     (case LoadInput fs templateFile of
        Inl err \<Rightarrow> Inl err
      | Inr tf \<Rightarrow> (case load_all fs rest of Inl err \<Rightarrow> Inl err | Inr tfs \<Rightarrow> Inr (tf # tfs)))"

fun template_all :: "'t engine \<Rightarrow> TemplateFile list \<Rightarrow> error + TemplateFile list" where
  "template_all eng [] = Inr []"
| "template_all eng (templateFile # rest) =
     (case Template eng templateFile of
        Inl err \<Rightarrow> Inl err
      | Inr tf \<Rightarrow> (case template_all eng rest of Inl err \<Rightarrow> Inl err | Inr tfs \<Rightarrow> Inr (tf # tfs)))"

fun save_all :: "TemplateFile list \<Rightarrow> node \<Rightarrow> error option \<times> node" where
  "save_all [] fs = (None, fs)"
| "save_all (templateFile # rest) fs =
     (case SaveOutput templateFile fs of
        (Some err, fs') \<Rightarrow> (Some err, fs')
      | (None, fs') \<Rightarrow> save_all rest fs')"

text \<open>
  The first part of \<^verbatim>\<open>Run\<close>, up to the list of template files: in directory mode the
  directories are mirrored and one template file is made for each file found, otherwise
  there is the one template file of the flags. \<open>environ\<close> is the result of
  \<^verbatim>\<open>os.Environ()\<close>.
\<close>

definition Run_setup :: "string list \<Rightarrow> Flags \<Rightarrow> node \<Rightarrow> (error + TemplateFile list) \<times> node" where
  "Run_setup environ flags fs =
     (case (if ID flags \<noteq> [] then recursiveCopyDir (ID flags) (OD flags) fs else (None, fs)) of
        (Some err, fs') \<Rightarrow> (Inl err, fs')
      | (None, fs') \<Rightarrow>
          (case NewTemplateContext environ of
             Inl err \<Rightarrow> (Inl err, fs')
           | Inr tx \<Rightarrow>
               if ID flags \<noteq> [] then
                 (case recursiveGetFiles fs' (ID flags) of
                    Inl err \<Rightarrow> (Inl err, fs')
                  | Inr files \<Rightarrow>
                      (Inr (map (\<lambda>file. NewTemplateFile tx (filepath_Join [ID flags, file])
                                   (filepath_Join [OD flags, file])) files), fs'))
               else (Inr [NewTemplateFile tx (IF flags) (OF flags)], fs')))"

definition Run :: "'t engine \<Rightarrow> string list \<Rightarrow> Flags \<Rightarrow> node \<Rightarrow> error option \<times> node" where
  "Run eng environ flags fs =
     (case Run_setup environ flags fs of
        (Inl err, fs') \<Rightarrow> (Some err, fs')
      | (Inr templateFiles, fs') \<Rightarrow>
          (case load_all fs' templateFiles of
             Inl err \<Rightarrow> (Some err, fs')
           | Inr loaded \<Rightarrow>
               (case template_all eng loaded of
                  Inl err \<Rightarrow> (Some err, fs')
                | Inr rendered \<Rightarrow> save_all rendered fs')))"

text \<open>
  \<^verbatim>\<open>main\<close>: \<^verbatim>\<open>log.Fatalf\<close> ends the process with the error; the pipeline runs only
  when \<open>NewFlags\<close> returned no error.
\<close>

definition main :: "'t engine \<Rightarrow> string list \<Rightarrow> Flags \<Rightarrow> error option \<Rightarrow> node \<Rightarrow> error option \<times> node" where
  "main eng environ parsed parse_err fs =
     (case NewFlags parsed parse_err of
        (flags, Some err) \<Rightarrow> (Some err, fs)
      | (flags, None) \<Rightarrow> Run eng environ flags fs)"

text \<open>
  An example engine for the template \<^verbatim>\<open>Hello {{ .Env "NAME" }}\<close> of the specification:
  the parsed template is the text before the action, and executing it appends the value
  of \<open>NAME\<close>.
\<close>

definition demo_engine :: "string engine" where
  "demo_engine = \<lparr>Parse = (\<lambda>name text. Inr text),
      Execute = (\<lambda>t tx. case Env tx ''NAME'' of Inl e \<Rightarrow> Inl (TemplateEvalError e) | Inr v \<Rightarrow> Inr (t @ v))\<rparr>"

section \<open>What a path denotes\<close>

text \<open>
  What a lookup found: nothing, a plain file with its content, or a directory. A leaf is
  a plain file or an empty directory.
\<close>

fun kind :: "errno + node \<Rightarrow> string option option" where
  "kind (Inl en) = None"
| "kind (Inr (File d)) = Some (Some d)"
| "kind (Inr (Dir r ents)) = Some None"

definition leaf :: "node \<Rightarrow> bool" where
  "leaf nd = (case nd of File d \<Rightarrow> True | Dir r ents \<Rightarrow> ents = [])"

text \<open>
  A path exists when it is not empty and resolves to a node of the tree, plain file or
  directory. These are the paths for which \<^verbatim>\<open>os.Mkdir\<close> fails with \<open>EEXIST\<close>.
\<close>

definition path_exists :: "node \<Rightarrow> string \<Rightarrow> bool" where
  "path_exists fs path = (path \<noteq> [] \<and> kind (lookup fs (resolve path)) \<noteq> None)"

text \<open>
  The example tree after its directory \<open>src\<close> has been mirrored to \<open>dst\<close>.
\<close>

definition mirrored_fs :: node where
  "mirrored_fs = Dir True
     [(''src'', Dir True [(''sub'', Dir True [(''empty'', Dir True []), (''b.txt'', File ''Bye '')]),
                          (''a.txt'', File ''Hello '')]),
      (''dst'', Dir True [(''sub'', Dir True [(''empty'', Dir True [])])])]"

text \<open>
  The example tree after its directory \<open>src\<close> has been mirrored to \<open>src/out\<close>, a
  destination inside the source.
\<close>

definition nested_fs :: node where
  "nested_fs = Dir True
     [(''src'', Dir True
        [(''sub'', Dir True [(''empty'', Dir True []), (''b.txt'', File ''Bye '')]),
         (''a.txt'', File ''Hello ''),
         (''out'', Dir True [(''out'', Dir True []),
                            (''sub'', Dir True [(''empty'', Dir True [])])])])]"

text \<open>
  A relative path as the listings return it: one or more valid names joined by the
  separator.
\<close>

definition rel_path :: "string \<Rightarrow> bool" where
  "rel_path d = (\<exists>cs. cs \<noteq> [] \<and> (\<forall>c \<in> set cs. valid_name c) \<and> d = strings_Join cs ''/'')"

definition rel_paths :: "string list \<Rightarrow> bool" where
  "rel_paths ds = (\<forall>d \<in> set ds. rel_path d)"

text \<open>
  The paths a listing of the directory at \<open>place\<close> may return: each a relative path of
  valid names that leads from \<open>place\<close> to a directory.
\<close>

definition listed :: "node \<Rightarrow> string list \<Rightarrow> string list \<Rightarrow> bool" where
  "listed fs place ds =
     (\<forall>d \<in> set ds. \<exists>cs. cs \<noteq> [] \<and> (\<forall>c \<in> set cs. valid_name c) \<and>
        d = strings_Join cs ''/'' \<and> kind (lookup fs (place @ cs)) = Some None)"

text \<open>
  An example with the source inside the destination: the source \<open>dst/in\<close> holds the
  directories \<open>in\<close> and \<open>in/y\<close>.
\<close>

definition inside_fs :: node where
  "inside_fs = Dir True
     [(''dst'', Dir True [(''in'', Dir True [(''in'', Dir True [(''y'', Dir True [])])])])]"

section \<open>Splitting strings\<close>

lemma HasPrefix_take: "HasPrefix (take n s) p \<Longrightarrow> HasPrefix s p"
proof -
  assume h: "HasPrefix (take n s) p"
  then have eq: "take (length p) (take n s) = p" by (simp add: HasPrefix_def)
  then have "length (take (length p) (take n s)) = length p" by simp
  then have "length p \<le> n" "length p \<le> length s" by auto
  with eq show ?thesis by (simp add: HasPrefix_def min_def)
qed

lemma Index_split: "Index s sep = Some m \<Longrightarrow> s = take m s @ sep @ drop (m + length sep) s"
proof (induction s arbitrary: m)
  case Nil
  then show ?case by (simp split: if_splits)
next
  case (Cons c s)
  show ?case
  proof (cases "HasPrefix (c # s) sep")
    case True
    with Cons.prems have m: "m = 0" by simp
    from True have "take (length sep) (c # s) = sep" by (simp add: HasPrefix_def)
    then have "c # s = sep @ drop (length sep) (c # s)"
      by (metis append_take_drop_id)
    with m show ?thesis by simp
  next
    case False
    with Cons.prems obtain j where j: "Index s sep = Some j" "m = Suc j" by auto
    from Cons.IH [OF j(1)] j(2) show ?thesis by simp
  qed
qed

lemma Index_take_None: "sep \<noteq> [] \<Longrightarrow> Index s sep = Some m \<Longrightarrow> Index (take m s) sep = None"
proof (induction s arbitrary: m)
  case Nil
  then show ?case by simp
next
  case (Cons c s)
  show ?case
  proof (cases "HasPrefix (c # s) sep")
    case True
    with Cons.prems show ?thesis by simp
  next
    case False
    with Cons.prems obtain j where j: "Index s sep = Some j" "m = Suc j" by auto
    have "\<not> HasPrefix (c # take j s) sep"
      using False HasPrefix_take [of "Suc j" "c # s" sep] by auto
    with Cons.IH [OF Cons.prems(1) j(1)] j(2) show ?thesis by simp
  qed
qed

lemma genSplit_loop_ne: "genSplit_loop k s sep sv \<noteq> []"
  by (cases k) (auto split: option.splits)

lemma strings_Join_Cons: "ps \<noteq> [] \<Longrightarrow> strings_Join (p # ps) sep = p @ sep @ strings_Join ps sep"
  by (cases ps) auto

lemma Count_le: "sep \<noteq> [] \<Longrightarrow> Count s sep \<le> length s"
proof (induction s sep rule: Count.induct)
  case (1 s substr)
  show ?case
  proof (cases "Index s substr")
    case None
    then show ?thesis using "1.prems" by (simp add: Count.simps)
  next
    case (Some i)
    have b: "i + length substr \<le> length s" using Some by (rule Index_bound)
    have "Count (drop (i + length substr) s) substr \<le> length (drop (i + length substr) s)"
      using "1.IH" [OF "1.prems" Some] "1.prems" by simp
    then have "Count (drop (i + length substr) s) substr \<le> length s - (i + length substr)"
      by simp
    moreover have "0 < length substr" using "1.prems" by simp
    ultimately have "Suc (Count (drop (i + length substr) s) substr) \<le> length s"
      using b by linarith
    then show ?thesis using Some "1.prems"
      by (simp add: Count.simps [of s substr])
  qed
qed

text \<open>
  With a separator that is not empty, the loop of \<open>genSplit\<close>, given at least as many
  rounds as \<open>sep\<close> has instances in \<open>s\<close>, cuts \<open>s\<close> at every instance: the pieces joined by
  \<open>sep\<close> are \<open>s\<close> again, no piece holds \<open>sep\<close>, and there is one piece more than instances.
\<close>

lemma genSplit_loop_props:
  "sep \<noteq> [] \<Longrightarrow> Count s sep \<le> k \<Longrightarrow>
   strings_Join (genSplit_loop k s sep 0) sep = s \<and>
   (\<forall>p \<in> set (genSplit_loop k s sep 0). Index p sep = None) \<and>
   length (genSplit_loop k s sep 0) = Count s sep + 1"
proof (induction k arbitrary: s)
  case 0
  then have "Index s sep = None"
    by (simp add: Count.simps [of s sep] split: option.splits)
  then show ?case using 0 by (simp add: Count.simps [of s sep])
next
  case (Suc k)
  show ?case
  proof (cases "Index s sep")
    case None
    then show ?thesis using Suc.prems by (simp add: Count.simps [of s sep])
  next
    case (Some m)
    let ?r = "drop (m + length sep) s"
    have c: "Count s sep = Suc (Count ?r sep)"
      using Some Suc.prems(1) by (simp add: Count.simps [of s sep])
    with Suc.prems have "Count ?r sep \<le> k" by simp
    from Suc.IH [OF Suc.prems(1) this]
    have ih: "strings_Join (genSplit_loop k ?r sep 0) sep = ?r"
      "\<forall>p \<in> set (genSplit_loop k ?r sep 0). Index p sep = None"
      "length (genSplit_loop k ?r sep 0) = Count ?r sep + 1" by auto
    have "strings_Join (take m s # genSplit_loop k ?r sep 0) sep = take m s @ sep @ ?r"
      using ih(1) by (simp add: strings_Join_Cons genSplit_loop_ne)
    also have "\<dots> = s" using Index_split [OF Some] by simp
    finally have j: "strings_Join (take m s # genSplit_loop k ?r sep 0) sep = s" .
    have "Index (take m s) sep = None"
      using Suc.prems(1) Some by (rule Index_take_None)
    with j ih c Some show ?thesis by simp
  qed
qed

lemma Split_loop: "sep \<noteq> [] \<Longrightarrow> Split s sep = genSplit_loop (Count s sep) s sep 0"
  using Count_le [of sep s] by (simp add: Split_def genSplit_def Let_def)

lemma Split_empty: "sep \<noteq> [] \<Longrightarrow> Split [] sep = [[]]"
  by (simp add: Split_loop Count.simps [of "[]" sep])

text \<open>\<open>SplitN\<close> with \<open>n = 2\<close> cuts at the first instance of the separator only.\<close>

lemma SplitN_2:
  "sep \<noteq> [] \<Longrightarrow>
   SplitN s sep 2 = (case Index s sep of None \<Rightarrow> [s] | Some m \<Rightarrow> [take m s, drop (m + length sep) s])"
proof (cases "s = []")
  case True
  assume "sep \<noteq> []"
  with True show ?thesis by (simp add: SplitN_def genSplit_def)
next
  case False
  assume "sep \<noteq> []"
  moreover from False have "\<not> 2 > length s + 1" by (cases s) auto
  ultimately show ?thesis
    by (simp add: SplitN_def genSplit_def Let_def numeral_2_eq_2 split: option.splits)
qed

section \<open>The loops that fill a map\<close>

lemma SplitN_2_first_cut:
  "sep \<noteq> [] \<Longrightarrow> first_cut item sep = Some (k, x) \<Longrightarrow> SplitN item sep 2 = [k, x]"
  by (auto simp: first_cut_def SplitN_2)

text \<open>
  When every item splits into two parts, the loop of \<open>Dict\<close> writes the pairs into the map
  in item order, so a later pair overwrites an earlier one with the same key.
\<close>

lemma Dict_loop_ok:
  "\<forall>j < length items. SplitN (items ! j) kv 2 = [fst (ps ! j), snd (ps ! j)] \<Longrightarrow>
   length ps = length items \<Longrightarrow>
   Dict_loop items kv d = Inr (d ++ map_of (rev ps))"
proof (induction items arbitrary: d ps)
  case Nil
  then show ?case by simp
next
  case (Cons item items)
  from Cons.prems(2) obtain p ps' where ps: "ps = p # ps'" "length ps' = length items"
    by (cases ps) auto
  have h: "SplitN item kv 2 = [fst p, snd p]"
    using Cons.prems(1) [rule_format, of 0] ps by simp
  have r: "\<forall>j < length items. SplitN (items ! j) kv 2 = [fst (ps' ! j), snd (ps' ! j)]"
  proof (intro allI impI)
    fix j assume "j < length items"
    then show "SplitN (items ! j) kv 2 = [fst (ps' ! j), snd (ps' ! j)]"
      using Cons.prems(1) [rule_format, of "Suc j"] ps by simp
  qed
  have "Dict_loop (item # items) kv d = Dict_loop items kv (d(fst p \<mapsto> snd p))"
    using h by (simp add: index_def)
  also have "\<dots> = Inr (d(fst p \<mapsto> snd p) ++ map_of (rev ps'))"
    using r ps(2) by (rule Cons.IH)
  also have "d(fst p \<mapsto> snd p) ++ map_of (rev ps') = d ++ map_of (rev ps)"
    unfolding ps by (cases p) (simp add: map_add_def fun_eq_iff split: option.splits)
  finally show ?case .
qed

lemma map_of_rev_last:
  "j < length ps \<Longrightarrow> \<forall>l. j < l \<and> l < length ps \<longrightarrow> fst (ps ! l) \<noteq> fst (ps ! j) \<Longrightarrow>
   map_of (rev ps) (fst (ps ! j)) = Some (snd (ps ! j))"
proof (induction ps rule: rev_induct)
  case Nil
  then show ?case by simp
next
  case (snoc p ps)
  show ?case
  proof (cases "j < length ps")
    case True
    have "fst ((ps @ [p]) ! length ps) \<noteq> fst ((ps @ [p]) ! j)"
      using snoc.prems(2) [rule_format, of "length ps"] True by simp
    then have ne: "fst p \<noteq> fst (ps ! j)" using True by (simp add: nth_append)
    have "\<forall>l. j < l \<and> l < length ps \<longrightarrow> fst (ps ! l) \<noteq> fst (ps ! j)"
    proof (intro allI impI)
      fix l assume l: "j < l \<and> l < length ps"
      then have "fst ((ps @ [p]) ! l) \<noteq> fst ((ps @ [p]) ! j)"
        using snoc.prems(2) by simp
      with l show "fst (ps ! l) \<noteq> fst (ps ! j)" by (simp add: nth_append)
    qed
    from snoc.IH [OF True this] ne True show ?thesis
      by (cases p) (auto simp: nth_append)
  next
    case False
    with snoc.prems(1) have "j = length ps" by simp
    then show ?thesis by (cases p) simp
  qed
qed

lemma map_of_rev_Some:
  "map_of (rev ps) k = Some x \<Longrightarrow>
   \<exists>j < length ps. ps ! j = (k, x) \<and> (\<forall>l. j < l \<and> l < length ps \<longrightarrow> fst (ps ! l) \<noteq> k)"
proof (induction ps rule: rev_induct)
  case Nil
  then show ?case by simp
next
  case (snoc p ps)
  show ?case
  proof (cases "fst p = k")
    case True
    with snoc.prems have "p = (k, x)" by (cases p) simp
    then have "(ps @ [p]) ! length ps = (k, x)" by simp
    moreover have "\<forall>l. length ps < l \<and> l < length (ps @ [p]) \<longrightarrow> fst ((ps @ [p]) ! l) \<noteq> k"
      by auto
    ultimately show ?thesis by (intro exI [of _ "length ps"]) simp
  next
    case False
    with snoc.prems have "map_of (rev ps) k = Some x" by (cases p) simp
    from snoc.IH [OF this] obtain j where j: "j < length ps" "ps ! j = (k, x)"
      "\<forall>l. j < l \<and> l < length ps \<longrightarrow> fst (ps ! l) \<noteq> k" by blast
    have "\<forall>l. j < l \<and> l < length (ps @ [p]) \<longrightarrow> fst ((ps @ [p]) ! l) \<noteq> k"
    proof (intro allI impI)
      fix l assume l: "j < l \<and> l < length (ps @ [p])"
      show "fst ((ps @ [p]) ! l) \<noteq> k"
      proof (cases "l < length ps")
        case True
        with j(3) l show ?thesis by (simp add: nth_append)
      next
        case False
        with l have "l = length ps" by simp
        with \<open>fst p \<noteq> k\<close> show ?thesis by simp
      qed
    qed
    with j(1,2) show ?thesis by (intro exI [of _ j]) (simp add: nth_append)
  qed
qed

lemma SplitN_2_Index:
  "sep \<noteq> [] \<Longrightarrow> Index item sep \<noteq> None \<Longrightarrow>
   \<exists>k x. first_cut item sep = Some (k, x) \<and> SplitN item sep 2 = [k, x]"
  by (auto simp: first_cut_def SplitN_2)

lemma Dict_well_formed:
  assumes kv: "kv \<noteq> []"
    and wf: "\<forall>item \<in> set items. Index item kv \<noteq> None"
  shows "\<exists>m. Dict_loop items kv Map.empty = Inr m \<and>
    (\<forall>k x. m k = Some x \<longleftrightarrow>
       (\<exists>j < length items. first_cut (items ! j) kv = Some (k, x) \<and>
          (\<forall>l. j < l \<and> l < length items \<longrightarrow> (\<forall>y. first_cut (items ! l) kv \<noteq> Some (k, y)))))"
proof -
  define ps where "ps = map (\<lambda>item. the (first_cut item kv)) items"
  have len: "length ps = length items" by (simp add: ps_def)
  have fc: "first_cut (items ! j) kv = Some (ps ! j)" if "j < length items" for j
  proof -
    from that wf have "Index (items ! j) kv \<noteq> None" by simp
    then show ?thesis using that by (auto simp: ps_def first_cut_def)
  qed
  have sp: "\<forall>j < length items. SplitN (items ! j) kv 2 = [fst (ps ! j), snd (ps ! j)]"
  proof (intro allI impI)
    fix j assume "j < length items"
    then have "first_cut (items ! j) kv = Some (fst (ps ! j), snd (ps ! j))" by (simp add: fc)
    with kv show "SplitN (items ! j) kv 2 = [fst (ps ! j), snd (ps ! j)]"
      by (rule SplitN_2_first_cut)
  qed
  have d: "Dict_loop items kv Map.empty = Inr (map_of (rev ps))"
    using Dict_loop_ok [OF sp len, of Map.empty] by simp
  have "map_of (rev ps) k = Some x \<longleftrightarrow>
       (\<exists>j < length items. first_cut (items ! j) kv = Some (k, x) \<and>
          (\<forall>l. j < l \<and> l < length items \<longrightarrow> (\<forall>y. first_cut (items ! l) kv \<noteq> Some (k, y))))"
    (is "?L \<longleftrightarrow> ?R") for k x
  proof
    assume ?L
    from map_of_rev_Some [OF this] obtain j where j: "j < length ps" "ps ! j = (k, x)"
      "\<forall>l. j < l \<and> l < length ps \<longrightarrow> fst (ps ! l) \<noteq> k" by blast
    have "first_cut (items ! j) kv = Some (k, x)" using j(1,2) len fc by simp
    moreover have "\<forall>l. j < l \<and> l < length items \<longrightarrow> (\<forall>y. first_cut (items ! l) kv \<noteq> Some (k, y))"
    proof (intro allI impI)
      fix l y assume l: "j < l \<and> l < length items"
      then have "fst (ps ! l) \<noteq> k" using j(3) len by simp
      moreover have "first_cut (items ! l) kv = Some (ps ! l)" using l fc by simp
      ultimately show "first_cut (items ! l) kv \<noteq> Some (k, y)" by auto
    qed
    ultimately show ?R using j(1) len by auto
  next
    assume ?R
    then obtain j where j: "j < length items" "first_cut (items ! j) kv = Some (k, x)"
      "\<forall>l. j < l \<and> l < length items \<longrightarrow> (\<forall>y. first_cut (items ! l) kv \<noteq> Some (k, y))" by blast
    from j(1,2) fc have pj: "ps ! j = (k, x)" by simp
    have "\<forall>l. j < l \<and> l < length ps \<longrightarrow> fst (ps ! l) \<noteq> fst (ps ! j)"
    proof (intro allI impI)
      fix l assume l: "j < l \<and> l < length ps"
      then have "first_cut (items ! l) kv = Some (ps ! l)" using fc len by simp
      moreover have "first_cut (items ! l) kv \<noteq> Some (k, snd (ps ! l))" using j(3) l len by simp
      ultimately show "fst (ps ! l) \<noteq> fst (ps ! j)" using pj by (cases "ps ! l") auto
    qed
    from map_of_rev_last [OF _ this] j(1) len pj show ?L by simp
  qed
  with d show ?thesis by simp
qed

section \<open>The environment snapshot\<close>

lemma Index_single: "c \<notin> set n \<Longrightarrow> Index (n @ c # v) [c] = Some (length n)"
  by (induction n) (auto simp: HasPrefix_def)

lemma SplitN_entry:
  "c \<notin> set n \<Longrightarrow> SplitN (n @ c # v) [c] 2 = [n, v]"
  by (simp add: SplitN_2 Index_single)

lemma trimLeftByte_dropWhile: "trimLeftByte s c = dropWhile (\<lambda>x. x = c) s"
  by (induction s) auto

lemma trimRightByte_dropWhile: "trimRightByte s c = rev (dropWhile (\<lambda>x. x = c) (rev s))"
proof (induction s c rule: trimRightByte.induct)
  case (1 s c)
  show ?case
  proof (cases "s \<noteq> [] \<and> last s = c")
    case True
    then obtain t where t: "s = t @ [c]" by (metis append_butlast_last_id)
    then have "trimRightByte s c = trimRightByte t c"
      by (simp add: trimRightByte.simps [of "t @ [c]" c])
    also have "\<dots> = rev (dropWhile (\<lambda>x. x = c) (rev t))"
      using "1.IH" True t by simp
    finally show ?thesis using t by simp
  next
    case False
    then have "trimRightByte s c = s"
      by (subst trimRightByte.simps) auto
    moreover have "rev (dropWhile (\<lambda>x. x = c) (rev s)) = s"
      using False by (cases s rule: rev_cases) auto
    ultimately show ?thesis by simp
  qed
qed

lemma takeWhile_eq_replicate: "\<exists>a. takeWhile (\<lambda>x. x = c) s = replicate a c"
proof (induction s)
  case Nil
  then show ?case by simp
next
  case (Cons x s)
  then obtain a where "takeWhile (\<lambda>x. x = c) s = replicate a c" by blast
  then have "x = c \<Longrightarrow> takeWhile (\<lambda>x. x = c) (x # s) = replicate (Suc a) c" by simp
  then show ?case by (cases "x = c") (blast, simp)
qed

lemma Trim_dropWhile:
  "Trim s c = dropWhile (\<lambda>x. x = c) (rev (dropWhile (\<lambda>x. x = c) (rev s)))"
  by (cases "s = []") (simp_all add: Trim_def trimLeftByte_dropWhile trimRightByte_dropWhile)

lemma dropWhile_split:
  "\<exists>a. s = replicate a c @ dropWhile (\<lambda>x. x = c) s"
proof -
  obtain a where "takeWhile (\<lambda>x. x = c) s = replicate a c"
    using takeWhile_eq_replicate [of c s] by (elim exE)
  moreover have "s = takeWhile (\<lambda>x. x = c) s @ dropWhile (\<lambda>x. x = c) s" by simp
  ultimately have "s = replicate a c @ dropWhile (\<lambda>x. x = c) s" by simp
  then show ?thesis ..
qed

lemma rev_dropWhile_split:
  "\<exists>b. s = rev (dropWhile (\<lambda>x. x = c) (rev s)) @ replicate b c"
proof -
  obtain b where b: "rev s = replicate b c @ dropWhile (\<lambda>x. x = c) (rev s)"
    using dropWhile_split [of "rev s" c] by (elim exE)
  have "rev (rev s) = rev (replicate b c @ dropWhile (\<lambda>x. x = c) (rev s))"
    using b by (rule arg_cong)
  then have "s = rev (dropWhile (\<lambda>x. x = c) (rev s)) @ replicate b c"
    by (simp only: rev_rev_ident rev_append rev_replicate)
  then show ?thesis ..
qed

lemma dropWhile_hd: "dropWhile (\<lambda>x. x = c) s \<noteq> [] \<Longrightarrow> hd (dropWhile (\<lambda>x. x = c) s) \<noteq> c"
  using hd_dropWhile [of "\<lambda>x. x = c" s] by simp

lemma dropWhile_last:
  "dropWhile P s \<noteq> [] \<Longrightarrow> last (dropWhile P s) = last s"
  by (induction s) (auto split: if_splits)

lemma Trim_spec:
  "\<exists>a b. s = replicate a c @ Trim s c @ replicate b c \<and>
     (Trim s c = [] \<or> hd (Trim s c) \<noteq> c \<and> last (Trim s c) \<noteq> c)"
proof -
  define d where "d = dropWhile (\<lambda>x. x = c) (rev s)"
  define r where "r = rev d"
  define t where "t = dropWhile (\<lambda>x. x = c) r"
  have T: "Trim s c = t"
    unfolding t_def r_def d_def by (rule Trim_dropWhile)
  obtain b where b: "s = r @ replicate b c"
    unfolding r_def d_def using rev_dropWhile_split [of s c] by (elim exE)
  obtain a where a: "r = replicate a c @ t"
    unfolding t_def using dropWhile_split [of r c] by (elim exE)
  have eq: "s = replicate a c @ t @ replicate b c"
    by (subst b, subst a) simp
  have ends: "hd t \<noteq> c \<and> last t \<noteq> c" if ne: "t \<noteq> []"
  proof -
    have h: "hd t \<noteq> c"
      using ne unfolding t_def by (rule dropWhile_hd)
    have "last t = last r"
      using ne unfolding t_def by (rule dropWhile_last)
    moreover have "r \<noteq> []" using a ne by simp
    then have dne: "d \<noteq> []" by (simp add: r_def)
    then have "last r = hd d" by (simp add: r_def last_rev)
    moreover have "hd d \<noteq> c"
      using dne unfolding d_def by (rule dropWhile_hd)
    ultimately show ?thesis using h by simp
  qed
  show ?thesis
  proof (intro exI conjI)
    show "s = replicate a c @ Trim s c @ replicate b c" using eq T by simp
    show "Trim s c = [] \<or> hd (Trim s c) \<noteq> c \<and> last (Trim s c) \<noteq> c"
      using ends T by (cases "t = []") simp_all
  qed
qed

lemma NewTemplateContext_loop_ok:
  "\<forall>j < length environ. SplitN (environ ! j) ''='' 2 = [fst (ps ! j), snd (ps ! j)] \<Longrightarrow>
   length ps = length environ \<Longrightarrow>
   NewTemplateContext_loop environ m =
     Inr (m ++ map_of (rev (map (\<lambda>(n, v). (n, Trim v (CHR 0x0A))) ps)))"
proof (induction environ arbitrary: m ps)
  case Nil
  then show ?case by simp
next
  case (Cons e environ)
  from Cons.prems(2) obtain p ps' where ps: "ps = p # ps'" "length ps' = length environ"
    by (cases ps) auto
  have h: "SplitN e ''='' 2 = [fst p, snd p]"
    using Cons.prems(1) [rule_format, of 0] ps by simp
  have r: "\<forall>j < length environ. SplitN (environ ! j) ''='' 2 = [fst (ps' ! j), snd (ps' ! j)]"
  proof (intro allI impI)
    fix j assume "j < length environ"
    then show "SplitN (environ ! j) ''='' 2 = [fst (ps' ! j), snd (ps' ! j)]"
      using Cons.prems(1) [rule_format, of "Suc j"] ps by simp
  qed
  have "NewTemplateContext_loop (e # environ) m =
        NewTemplateContext_loop environ (m(fst p \<mapsto> Trim (snd p) (CHR 0x0A)))"
    using h by (simp add: index_def)
  also have "\<dots> = Inr (m(fst p \<mapsto> Trim (snd p) (CHR 0x0A)) ++
        map_of (rev (map (\<lambda>(n, v). (n, Trim v (CHR 0x0A))) ps')))"
    using r ps(2) by (rule Cons.IH)
  also have "m(fst p \<mapsto> Trim (snd p) (CHR 0x0A)) ++ map_of (rev (map (\<lambda>(n, v). (n, Trim v (CHR 0x0A))) ps'))
     = m ++ map_of (rev (map (\<lambda>(n, v). (n, Trim v (CHR 0x0A))) ps))"
    unfolding ps by (cases p) (simp add: map_add_def fun_eq_iff split: option.splits)
  finally show ?case .
qed

section \<open>Claims about the template context\<close>

text \<open>
  C1. The claim: when an item of the value has no \<open>kvDelimiter\<close>, \<open>Dict\<close> fails with a
  reported \<open>MalformedPair\<close> error, not with an unguarded out-of-bounds access.
  The code indexes the result of \<open>SplitN\<close> at 1 without a check. With the variable
  \<open>X\<close> set to \<open>a\<close>, \<open>Dict "X" ";" "="\<close> does not return an error value: the index
  expression \<^verbatim>\<open>v[1]\<close> panics, index out of range [1] with length 1.
\<close>

theorem C1_Dict_item_without_kvDelimiter_panics:
  "Dict \<lparr>envs = [''X'' \<mapsto> ''a'']\<rparr> ''X'' '';'' ''='' = Inl (Panic_index_out_of_range 1 1)"
  by (simp add: Dict_def Env_def Split_def SplitN_def genSplit_def Count.simps index_def
      HasPrefix_def)

text \<open>
  The same happens for every value: the first item without the delimiter stops the loop
  with that panic.
\<close>

lemma Dict_loop_panic:
  "kv \<noteq> [] \<Longrightarrow> \<exists>item \<in> set items. Index item kv = None \<Longrightarrow>
   Dict_loop items kv d = Inl (Panic_index_out_of_range 1 1)"
proof (induction items arbitrary: d)
  case Nil
  then show ?case by simp
next
  case (Cons item items)
  show ?case
  proof (cases "Index item kv")
    case None
    then show ?thesis using Cons.prems(1) by (simp add: SplitN_2 index_def)
  next
    case (Some m)
    with Cons.prems have "\<exists>item \<in> set items. Index item kv = None" by auto
    from Cons.IH [OF Cons.prems(1) this] Some Cons.prems(1) show ?thesis
      by (simp add: SplitN_2 index_def)
  qed
qed

text \<open>
  C4. For a name \<open>N\<close> that the environment table does not hold, \<open>Env\<close>, \<open>List\<close> and
  \<open>Dict\<close> fail with the error \<open>MissingVariable N\<close>, \<open>Exist\<close> is false and \<open>NotExist\<close> is
  true. \<open>Exist\<close> and \<open>NotExist\<close> return a \<open>bool\<close> and have no error result.
\<close>

theorem C4_absent_variable:
  "envs tx N = None \<Longrightarrow>
   Env tx N = Inl (MissingVariable N) \<and>
   List tx N d = Inl (MissingVariable N) \<and>
   Dict tx N d1 d2 = Inl (MissingVariable N) \<and>
   Exist tx N = False \<and> NotExist tx N = True"
  by (simp add: Env_def List_def Dict_def Exist_def NotExist_def)

theorem C4_absent_variable_witness:
  "envs \<lparr>envs = [''A'' \<mapsto> ''x'']\<rparr> ''B'' = None \<and>
   Env \<lparr>envs = [''A'' \<mapsto> ''x'']\<rparr> ''B'' = Inl (MissingVariable ''B'') \<and>
   List \<lparr>envs = [''A'' \<mapsto> ''x'']\<rparr> ''B'' '','' = Inl (MissingVariable ''B'') \<and>
   Dict \<lparr>envs = [''A'' \<mapsto> ''x'']\<rparr> ''B'' '';'' ''='' = Inl (MissingVariable ''B'') \<and>
   Exist \<lparr>envs = [''A'' \<mapsto> ''x'']\<rparr> ''B'' = False \<and>
   NotExist \<lparr>envs = [''A'' \<mapsto> ''x'']\<rparr> ''B'' = True"
  using C4_absent_variable [of "\<lparr>envs = [''A'' \<mapsto> ''x'']\<rparr>" "''B''" "'',''" "'';''" "''=''"]
  by simp

text \<open>
  C7. The claim: for every present variable with value \<open>v\<close> and every delimiter \<open>d\<close>,
  \<open>List\<close> returns \<open>v\<close> split on every occurrence of \<open>d\<close>, and an empty value gives the
  one-element sequence holding the empty string.
  It fails for the empty delimiter, where \<open>strings.Split\<close> cuts after each UTF-8
  sequence: an empty value then gives the empty sequence.
\<close>

theorem C7_List_empty_delimiter_counterexample:
  "List \<lparr>envs = [''X'' \<mapsto> '''']\<rparr> ''X'' '''' = Inr [] \<and>
   List \<lparr>envs = [''X'' \<mapsto> '''']\<rparr> ''X'' '''' \<noteq> Inr ['''']"
  by (simp add: List_def Env_def Split_def genSplit_def explode_def RuneCountInString.simps)

text \<open>
  C7, amended. For every present variable with value \<open>v\<close> and every delimiter \<open>d\<close> that
  is not empty, \<open>List\<close> returns \<open>v\<close> split on every occurrence of \<open>d\<close>, in order and with
  nothing left out: the elements joined by \<open>d\<close> are \<open>v\<close>, no element holds \<open>d\<close>, there is
  one element more than \<open>d\<close> has non-overlapping occurrences in \<open>v\<close>, and an empty value
  gives the one-element sequence holding the empty string.
\<close>

theorem C7_List_splits_on_delimiter:
  "envs tx N = Some v \<Longrightarrow> d \<noteq> [] \<Longrightarrow>
   List tx N d = Inr (Split v d) \<and>
   strings_Join (Split v d) d = v \<and>
   (\<forall>p \<in> set (Split v d). Index p d = None) \<and>
   length (Split v d) = Count v d + 1 \<and>
   (v = [] \<longrightarrow> Split v d = [[]])"
  using genSplit_loop_props [of d v "Count v d"] Split_empty [of d]
  by (auto simp add: List_def Env_def Split_loop)

theorem C7_List_splits_on_delimiter_witness:
  "envs \<lparr>envs = [''X'' \<mapsto> ''a,b,c'']\<rparr> ''X'' = Some ''a,b,c'' \<and> '','' \<noteq> [] \<and>
   List \<lparr>envs = [''X'' \<mapsto> ''a,b,c'']\<rparr> ''X'' '','' = Inr [''a'', ''b'', ''c'']"
proof -
  have s: "Split ''a,b,c'' '','' = [''a'', ''b'', ''c'']" by code_simp
  show ?thesis
    using C7_List_splits_on_delimiter [of "\<lparr>envs = [''X'' \<mapsto> ''a,b,c'']\<rparr>" "''X''" "''a,b,c''" "'',''"] s
    by simp
qed

text \<open>
  The examples of the specification for \<open>Dict\<close>, evaluated on the code.
\<close>

lemma Dict_example_two_items: "Dict \<lparr>envs = [''X'' \<mapsto> ''a=1;b=2'']\<rparr> ''X'' '';'' ''='' = Inr [''a'' \<mapsto> ''1'', ''b'' \<mapsto> ''2'']"
proof -
  have "Split ''a=1;b=2'' '';'' = [''a=1'', ''b=2'']" by code_simp
  then show ?thesis
    by (simp add: Dict_def Env_def SplitN_2 index_def HasPrefix_def)
qed

lemma Dict_example_first_delimiter: "Dict \<lparr>envs = [''X'' \<mapsto> ''a=1=x'']\<rparr> ''X'' '';'' ''='' = Inr [''a'' \<mapsto> ''1=x'']"
proof -
  have "Split ''a=1=x'' '';'' = [''a=1=x'']" by code_simp
  then show ?thesis
    by (simp add: Dict_def Env_def SplitN_2 index_def HasPrefix_def)
qed

text \<open>
  C6. The claim: for every present variable whose items each contain \<open>kvDelimiter\<close>,
  \<open>Dict\<close> splits each item on the first occurrence of \<open>kvDelimiter\<close> into exactly two
  parts. It fails for the empty \<open>kvDelimiter\<close>, which every item contains (at index 0):
  \<open>strings.SplitN\<close> then cuts after the first UTF-8 sequence, the item \<open>a\<close> gives one
  part only, and \<open>Dict\<close> panics on \<^verbatim>\<open>v[1]\<close>.
\<close>

theorem C6_empty_kvDelimiter_counterexample:
  "envs \<lparr>envs = [''X'' \<mapsto> ''a'']\<rparr> ''X'' = Some ''a'' \<and> Split ''a'' '';'' = [''a''] \<and>
   Index ''a'' '''' = Some 0 \<and> SplitN ''a'' '''' 2 = [''a''] \<and>
   Dict \<lparr>envs = [''X'' \<mapsto> ''a'']\<rparr> ''X'' '';'' '''' = Inl (Panic_index_out_of_range 1 1)"
proof -
  have s: "Split ''a'' '';'' = [''a'']" by code_simp
  have n: "SplitN ''a'' '''' 2 = [''a'']" by code_simp
  show ?thesis using s n by (simp add: Dict_def Env_def index_def HasPrefix_def)
qed

text \<open>
  C6, amended. For every present variable, every \<open>kvDelimiter\<close> that is not empty and
  every \<open>itemDelimiter\<close>, when each item of the value contains \<open>kvDelimiter\<close>: \<open>Dict\<close>
  returns a map; \<open>SplitN\<close> gives for each item exactly two parts, the key before the first
  occurrence of \<open>kvDelimiter\<close> and the value after it; and the map binds \<open>k\<close> to \<open>x\<close>
  exactly when \<open>(k, x)\<close> is the pair of the last item with the key \<open>k\<close>.
\<close>

theorem C6_Dict_first_cut:
  assumes "envs tx N = Some v" and "kv \<noteq> []"
    and "\<forall>item \<in> set (Split v itemD). Index item kv \<noteq> None"
  shows "\<exists>m. Dict tx N itemD kv = Inr m \<and>
    (\<forall>item \<in> set (Split v itemD). \<exists>k x. first_cut item kv = Some (k, x) \<and> SplitN item kv 2 = [k, x]) \<and>
    (\<forall>k x. m k = Some x \<longleftrightarrow>
       (\<exists>j < length (Split v itemD). first_cut (Split v itemD ! j) kv = Some (k, x) \<and>
          (\<forall>l. j < l \<and> l < length (Split v itemD) \<longrightarrow>
             (\<forall>y. first_cut (Split v itemD ! l) kv \<noteq> Some (k, y)))))"
proof -
  from Dict_well_formed [OF assms(2,3)] obtain m where
    m: "Dict_loop (Split v itemD) kv Map.empty = Inr m"
    "\<forall>k x. m k = Some x \<longleftrightarrow>
       (\<exists>j < length (Split v itemD). first_cut (Split v itemD ! j) kv = Some (k, x) \<and>
          (\<forall>l. j < l \<and> l < length (Split v itemD) \<longrightarrow>
             (\<forall>y. first_cut (Split v itemD ! l) kv \<noteq> Some (k, y))))" by blast
  have "Dict tx N itemD kv = Inr m" using assms(1) m(1) by (simp add: Dict_def Env_def)
  moreover have "\<forall>item \<in> set (Split v itemD). \<exists>k x. first_cut item kv = Some (k, x) \<and> SplitN item kv 2 = [k, x]"
    using assms(2,3) SplitN_2_Index by blast
  ultimately show ?thesis using m(2) by blast
qed

theorem C6_Dict_first_cut_witness:
  "envs \<lparr>envs = [''X'' \<mapsto> ''a=1;b=2'']\<rparr> ''X'' = Some ''a=1;b=2'' \<and> ''='' \<noteq> [] \<and>
   Index ''a=1'' ''='' = Some 1 \<and> Index ''b=2'' ''='' = Some 1 \<and>
   Dict \<lparr>envs = [''X'' \<mapsto> ''a=1;b=2'']\<rparr> ''X'' '';'' ''='' = Inr [''a'' \<mapsto> ''1'', ''b'' \<mapsto> ''2'']"
proof -
  have s: "Split ''a=1;b=2'' '';'' = [''a=1'', ''b=2'']" by code_simp
  have i: "Index ''a=1'' ''='' = Some 1" "Index ''b=2'' ''='' = Some 1" by (simp_all add: HasPrefix_def)
  have h: "\<forall>item \<in> set (Split ''a=1;b=2'' '';''). Index item ''='' \<noteq> None" using s i by simp
  from C6_Dict_first_cut [of "\<lparr>envs = [''X'' \<mapsto> ''a=1;b=2'']\<rparr>" "''X''" "''a=1;b=2''" "''=''" "'';''", OF _ _ h]
  have "\<exists>m. Dict \<lparr>envs = [''X'' \<mapsto> ''a=1;b=2'']\<rparr> ''X'' '';'' ''='' = Inr m" by auto
  with Dict_example_two_items i show ?thesis by simp
qed

text \<open>
  C10. The claim: for every present variable whose value has two or more items with the
  same key, \<open>Dict\<close> returns a map that binds the key to the value of the last such item.
  It fails when another item of the value has no \<open>kvDelimiter\<close>: for \<open>a=1;a=2;b\<close> the
  loop panics on the third item and \<open>Dict\<close> returns no map.
\<close>

theorem C10_malformed_item_counterexample:
  "Dict \<lparr>envs = [''X'' \<mapsto> ''a=1;a=2;b'']\<rparr> ''X'' '';'' ''='' = Inl (Panic_index_out_of_range 1 1)"
proof -
  have s: "Split ''a=1;a=2;b'' '';'' = [''a=1'', ''a=2'', ''b'']" by code_simp
  show ?thesis using s by (simp add: Dict_def Env_def SplitN_2 index_def HasPrefix_def)
qed

text \<open>
  C10, amended. For every present variable whose items each split into two parts, a key
  and a value: when the items \<open>i < j\<close> have the same key \<open>k\<close> and no item after \<open>j\<close> has
  it, \<open>Dict\<close> returns a map that binds \<open>k\<close> to the value of item \<open>j\<close>. The earlier
  binding is overwritten and nothing is rejected.
\<close>

theorem C10_Dict_last_binding_wins:
  assumes "envs tx N = Some v"
    and "\<forall>item \<in> set (Split v itemD). \<exists>k x. SplitN item kv 2 = [k, x]"
    and "i < j" and "j < length (Split v itemD)"
    and "SplitN (Split v itemD ! i) kv 2 = [k, xi]"
    and "SplitN (Split v itemD ! j) kv 2 = [k, xj]"
    and "\<forall>l. j < l \<and> l < length (Split v itemD) \<longrightarrow> hd (SplitN (Split v itemD ! l) kv 2) \<noteq> k"
  shows "\<exists>m. Dict tx N itemD kv = Inr m \<and> m k = Some xj"
proof -
  let ?items = "Split v itemD"
  define ps where "ps = map (\<lambda>item. (SplitN item kv 2 ! 0, SplitN item kv 2 ! 1)) ?items"
  have len: "length ps = length ?items" by (simp add: ps_def)
  have sp: "\<forall>l < length ?items. SplitN (?items ! l) kv 2 = [fst (ps ! l), snd (ps ! l)]"
  proof (intro allI impI)
    fix l assume l: "l < length ?items"
    then obtain a b where "SplitN (?items ! l) kv 2 = [a, b]" using assms(2) by fastforce
    then show "SplitN (?items ! l) kv 2 = [fst (ps ! l), snd (ps ! l)]" using l by (simp add: ps_def)
  qed
  have d: "Dict tx N itemD kv = Inr (map_of (rev ps))"
    using Dict_loop_ok [OF sp len, of Map.empty] assms(1) by (simp add: Dict_def Env_def)
  have pj: "ps ! j = (k, xj)" using assms(4,6) by (simp add: ps_def)
  have "\<forall>l. j < l \<and> l < length ps \<longrightarrow> fst (ps ! l) \<noteq> fst (ps ! j)"
  proof (intro allI impI)
    fix l assume l: "j < l \<and> l < length ps"
    then have "hd (SplitN (?items ! l) kv 2) \<noteq> k" using assms(7) len by simp
    moreover have "SplitN (?items ! l) kv 2 = [fst (ps ! l), snd (ps ! l)]" using sp l len by simp
    ultimately show "fst (ps ! l) \<noteq> fst (ps ! j)" using pj by simp
  qed
  from map_of_rev_last [OF _ this] assms(4) len pj have "map_of (rev ps) k = Some xj" by simp
  with d show ?thesis by simp
qed

theorem C10_Dict_last_binding_wins_witness:
  "envs \<lparr>envs = [''X'' \<mapsto> ''a=1;a=2'']\<rparr> ''X'' = Some ''a=1;a=2'' \<and>
   Split ''a=1;a=2'' '';'' = [''a=1'', ''a=2''] \<and>
   SplitN ''a=1'' ''='' 2 = [''a'', ''1''] \<and> SplitN ''a=2'' ''='' 2 = [''a'', ''2''] \<and>
   (\<exists>m. Dict \<lparr>envs = [''X'' \<mapsto> ''a=1;a=2'']\<rparr> ''X'' '';'' ''='' = Inr m \<and> m ''a'' = Some ''2'')"
proof -
  have s: "Split ''a=1;a=2'' '';'' = [''a=1'', ''a=2'']" by code_simp
  have n: "SplitN ''a=1'' ''='' 2 = [''a'', ''1'']" "SplitN ''a=2'' ''='' 2 = [''a'', ''2'']"
    by (simp_all add: SplitN_2 HasPrefix_def)
  have h: "\<forall>item \<in> set (Split ''a=1;a=2'' '';''). \<exists>k x. SplitN item ''='' 2 = [k, x]"
    using s n by simp
  have "\<exists>m. Dict \<lparr>envs = [''X'' \<mapsto> ''a=1;a=2'']\<rparr> ''X'' '';'' ''='' = Inr m \<and> m ''a'' = Some ''2''"
    using C10_Dict_last_binding_wins [of "\<lparr>envs = [''X'' \<mapsto> ''a=1;a=2'']\<rparr>" "''X''" "''a=1;a=2''" "'';''" "''=''" 0 1 "''a''" "''1''" "''2''", OF _ h]
      s n by simp
  with s n show ?thesis by simp
qed

text \<open>
  C3. The claim: for every process environment, the snapshot trims only trailing newline
  characters from a value and keeps its leading newlines. It fails in two ways. The code
  calls \<open>strings.Trim\<close>, which cuts at both ends: for the entry \<open>A=\<close> newline \<open>x\<close> the
  snapshot value of \<open>A\<close> is \<open>x\<close>. And for an environment with the entry \<open>A\<close>, which has
  no \<open>=\<close>, there is no snapshot: the index expression \<^verbatim>\<open>substrs[1]\<close> panics.
\<close>

theorem C3_leading_newline_counterexample:
  "(case NewTemplateContext [[CHR ''A'', CHR ''='', CHR 0x0A, CHR ''x'']] of
      Inl e \<Rightarrow> Inl e | Inr tx \<Rightarrow> Env tx ''A'') = Inr ''x'' \<and>
   NewTemplateContext [''A''] = Inl (Panic_index_out_of_range 1 1)"
  by (simp add: NewTemplateContext_def SplitN_2 HasPrefix_def index_def Trim_def Env_def
      trimRightByte.simps)

text \<open>
  C3, amended. For every process environment whose entries all contain \<open>=\<close>, the
  snapshot is built without failure; each entry \<open>n=v\<close>, with no \<open>=\<close> in \<open>n\<close>, binds \<open>n\<close>
  to \<open>v\<close> with its leading and trailing newline characters removed (\<open>Trim\<close> takes a run
  of newlines from each end and leaves a string that neither starts nor ends with a
  newline); and for every name present in the snapshot \<open>Env\<close> returns the snapshot value
  unchanged. \<^verbatim>\<open>os.Environ()\<close> holds every name once, and the statement is about the
  entries whose name no other entry of \<open>environ\<close> has.
\<close>

theorem C3_snapshot:
  assumes "\<forall>e \<in> set environ. CHR ''='' \<in> set e"
  shows "\<exists>tx. NewTemplateContext environ = Inr tx \<and>
    (\<forall>j n v. j < length environ \<and> environ ! j = n @ ''='' @ v \<and> CHR ''='' \<notin> set n \<and>
        (\<forall>l. l \<noteq> j \<and> l < length environ \<longrightarrow> \<not> HasPrefix (environ ! l) (n @ ''=''))
      \<longrightarrow> envs tx n = Some (Trim v (CHR 0x0A))) \<and>
    (\<forall>v. \<exists>a b. v = replicate a (CHR 0x0A) @ Trim v (CHR 0x0A) @ replicate b (CHR 0x0A) \<and>
        (Trim v (CHR 0x0A) = [] \<or> hd (Trim v (CHR 0x0A)) \<noteq> CHR 0x0A \<and> last (Trim v (CHR 0x0A)) \<noteq> CHR 0x0A)) \<and>
    (\<forall>N x. envs tx N = Some x \<longrightarrow> Env tx N = Inr x)"
proof -
  let ?nl = "CHR 0x0A"
  let ?eq = "CHR ''=''"
  define ps where "ps = map (\<lambda>e. (takeWhile (\<lambda>x. x \<noteq> ?eq) e, tl (dropWhile (\<lambda>x. x \<noteq> ?eq) e))) environ"
  have len: "length ps = length environ" by (simp add: ps_def)
  have dec: "environ ! j = fst (ps ! j) @ ?eq # snd (ps ! j) \<and> ?eq \<notin> set (fst (ps ! j))"
    if "j < length environ" for j
  proof -
    let ?e = "environ ! j"
    from that assms have "?eq \<in> set ?e" by simp
    then have "dropWhile (\<lambda>x. x \<noteq> ?eq) ?e \<noteq> []" by auto
    moreover have "hd (dropWhile (\<lambda>x. x \<noteq> ?eq) ?e) = ?eq"
      using hd_dropWhile [OF calculation] by simp
    ultimately have "dropWhile (\<lambda>x. x \<noteq> ?eq) ?e = ?eq # tl (dropWhile (\<lambda>x. x \<noteq> ?eq) ?e)"
      by (metis list.collapse)
    then have "?e = takeWhile (\<lambda>x. x \<noteq> ?eq) ?e @ ?eq # tl (dropWhile (\<lambda>x. x \<noteq> ?eq) ?e)"
      by (metis takeWhile_dropWhile_id)
    moreover have "?eq \<notin> set (takeWhile (\<lambda>x. x \<noteq> ?eq) ?e)"
      by (auto dest: set_takeWhileD)
    ultimately show ?thesis using that by (simp add: ps_def)
  qed
  have sp: "\<forall>j < length environ. SplitN (environ ! j) ''='' 2 = [fst (ps ! j), snd (ps ! j)]"
  proof (intro allI impI)
    fix j assume j: "j < length environ"
    from dec [OF j] SplitN_entry [of ?eq "fst (ps ! j)" "snd (ps ! j)"]
    show "SplitN (environ ! j) ''='' 2 = [fst (ps ! j), snd (ps ! j)]" by simp
  qed
  let ?qs = "map (\<lambda>(n, v). (n, Trim v ?nl)) ps"
  have d: "NewTemplateContext environ = Inr \<lparr>envs = map_of (rev ?qs)\<rparr>"
    using NewTemplateContext_loop_ok [OF sp len, of Map.empty] by (simp add: NewTemplateContext_def)
  have main: "map_of (rev ?qs) n = Some (Trim v ?nl)"
    if j: "j < length environ" and e: "environ ! j = n @ ''='' @ v" and n: "?eq \<notin> set n"
      and last: "\<forall>l. l \<noteq> j \<and> l < length environ \<longrightarrow> \<not> HasPrefix (environ ! l) (n @ ''='')"
    for j n v
  proof -
    have "SplitN (environ ! j) ''='' 2 = [n, v]" using e n SplitN_entry [of ?eq n v] by simp
    with sp j have pj: "ps ! j = (n, v)" by (cases "ps ! j") simp
    then have qj: "?qs ! j = (n, Trim v ?nl)" using j len by simp
    have "\<forall>l. j < l \<and> l < length ?qs \<longrightarrow> fst (?qs ! l) \<noteq> fst (?qs ! j)"
    proof (intro allI impI)
      fix l assume l: "j < l \<and> l < length ?qs"
      then have ll: "l < length environ" using len by simp
      from dec [OF ll] have "HasPrefix (environ ! l) (fst (ps ! l) @ ''='')"
        by (simp add: HasPrefix_def)
      moreover have "\<not> HasPrefix (environ ! l) (n @ ''='')" using last l ll by simp
      ultimately have "fst (ps ! l) \<noteq> n" by auto
      then show "fst (?qs ! l) \<noteq> fst (?qs ! j)" using qj ll len by (cases "ps ! l") simp
    qed
    from map_of_rev_last [OF _ this] j len qj show ?thesis by simp
  qed
  have env: "\<forall>N x. envs \<lparr>envs = map_of (rev ?qs)\<rparr> N = Some x \<longrightarrow> Env \<lparr>envs = map_of (rev ?qs)\<rparr> N = Inr x"
    by (simp add: Env_def)
  show ?thesis
    using d main env Trim_spec [of _ ?nl] by (intro exI [of _ "\<lparr>envs = map_of (rev ?qs)\<rparr>"]) auto
qed

theorem C3_snapshot_witness:
  "CHR ''='' \<in> set ''A=b=c'' \<and> CHR ''='' \<in> set ''B=x'' \<and>
   \<not> HasPrefix ''B=x'' ''A='' \<and>
   (\<exists>tx. NewTemplateContext [''A=b=c'', ''B=x''] = Inr tx \<and>
      envs tx ''A'' = Some ''b=c'' \<and> Env tx ''A'' = Inr ''b=c'')"
proof -
  have t: "Trim ''b=c'' (CHR 0x0A) = ''b=c''" by (simp add: Trim_def trimRightByte.simps)
  have h: "\<forall>e \<in> set [''A=b=c'', ''B=x'']. CHR ''='' \<in> set e" by simp
  have p: "\<not> HasPrefix ''B=x'' ''A=''" by (simp add: HasPrefix_def)
  from C3_snapshot [OF h] obtain tx where tx: "NewTemplateContext [''A=b=c'', ''B=x''] = Inr tx"
    "\<forall>j n v. j < length [''A=b=c'', ''B=x''] \<and> [''A=b=c'', ''B=x''] ! j = n @ ''='' @ v \<and>
        CHR ''='' \<notin> set n \<and>
        (\<forall>l. l \<noteq> j \<and> l < length [''A=b=c'', ''B=x''] \<longrightarrow>
           \<not> HasPrefix ([''A=b=c'', ''B=x''] ! l) (n @ ''=''))
      \<longrightarrow> envs tx n = Some (Trim v (CHR 0x0A))"
    "\<forall>N x. envs tx N = Some x \<longrightarrow> Env tx N = Inr x" by blast
  have u: "\<forall>l. l \<noteq> 0 \<and> l < length [''A=b=c'', ''B=x''] \<longrightarrow>
           \<not> HasPrefix ([''A=b=c'', ''B=x''] ! l) (''A'' @ ''='')"
    using p by (auto simp: less_Suc_eq)
  from tx(2) [rule_format, of 0 "''A''" "''b=c''"] t u
  have "envs tx ''A'' = Some ''b=c''" by simp
  with tx(1,3) p show ?thesis by simp
qed

section \<open>Claims about the flags\<close>

text \<open>
  C5. The claim: whenever both \<open>-if\<close> and \<open>-id\<close> are set, the validation reports an
  error. The \<^verbatim>\<open>switch\<close> has no case for it: with all four flags set no case holds and
  \<open>NewFlags\<close> returns the flags with no error.
\<close>

theorem C5_mixed_mode_accepted_counterexample:
  "NewFlags \<lparr>IF = ''in.txt'', OF = ''out.txt'', ID = ''in'', OD = ''out''\<rparr> None =
     (\<lparr>IF = ''in.txt'', OF = ''out.txt'', ID = ''in'', OD = ''out''\<rparr>, None)"
  by (simp add: NewFlags_def)

text \<open>
  C5, amended. For every flag configuration, parsed without error, in which both \<open>-if\<close>
  and \<open>-id\<close> are set, the validation reports an error exactly when \<open>-of\<close> or \<open>-od\<close> is
  empty; with both outputs set it reports none.
\<close>

theorem C5_mixed_mode_validation:
  "IF flags \<noteq> [] \<Longrightarrow> ID flags \<noteq> [] \<Longrightarrow>
   (snd (NewFlags flags None) \<noteq> None) = (OF flags = [] \<or> OD flags = [])"
  by (simp add: NewFlags_def)

theorem C5_mixed_mode_validation_witness:
  "IF \<lparr>IF = ''in.txt'', OF = [], ID = ''in'', OD = ''out''\<rparr> \<noteq> [] \<and>
   ID \<lparr>IF = ''in.txt'', OF = [], ID = ''in'', OD = ''out''\<rparr> \<noteq> [] \<and>
   snd (NewFlags \<lparr>IF = ''in.txt'', OF = [], ID = ''in'', OD = ''out''\<rparr> None) =
     Some (ConfigError ''Required output file when using input file'')"
  using C5_mixed_mode_validation [of "\<lparr>IF = ''in.txt'', OF = [], ID = ''in'', OD = ''out''\<rparr>"]
  by (simp add: NewFlags_def)

section \<open>Creating directories and writing files\<close>

text \<open>
  Setting a leaf at a place of the tree changes what no other place denotes, and the
  place itself then holds the leaf.
\<close>

lemma leaf_lookup: "leaf new \<Longrightarrow> kind (lookup new (x # xs)) = None"
  by (cases new) (auto simp: leaf_def)

lemma put_kind_other:
  "leaf new \<Longrightarrow> kind (lookup nd cs) \<noteq> Some None \<Longrightarrow> cs' \<noteq> cs \<Longrightarrow>
     kind (lookup (put nd cs new) cs') = kind (lookup nd cs')"
  and "leaf new \<Longrightarrow> kind (lookup_entries ents e es) \<noteq> Some None \<Longrightarrow> (e', es') \<noteq> (e, es) \<Longrightarrow>
     kind (lookup_entries (put_entries ents e es new) e' es') = kind (lookup_entries ents e' es')"
proof (induction nd cs new and ents e es new arbitrary: cs' and e' es' rule: put_put_entries.induct)
  case (1 n new)
  then show ?case by (cases n; cases cs') (auto simp: leaf_lookup)
next
  case (2 d e es new)
  then show ?case by simp
next
  case (3 r ents e es new)
  then show ?case by (cases cs') auto
next
  case (4 e es new)
  then show ?case by (auto simp: leaf_lookup split: if_splits) (cases es', auto simp: leaf_lookup)
next
  case (5 n c ents e es new)
  then show ?case by auto
qed

lemma put_lookup_same:
  "(\<exists>d. kind (lookup nd cs) = Some (Some d)) \<or>
     (kind (lookup nd cs) = None \<and> kind (lookup nd (butlast cs)) = Some None) \<Longrightarrow>
   lookup (put nd cs new) cs = Inr new"
  and "(\<exists>d. kind (lookup_entries ents e es) = Some (Some d)) \<or>
     (kind (lookup_entries ents e es) = None \<and>
        (es = [] \<or> kind (lookup_entries ents e (butlast es)) = Some None)) \<Longrightarrow>
   lookup_entries (put_entries ents e es new) e es = Inr new"
proof (induction nd cs new and ents e es new rule: put_put_entries.induct)
  case (1 n new)
  then show ?case by simp
next
  case (2 d e es new)
  then show ?case by (cases es) auto
next
  case (3 r ents e es new)
  then show ?case by (cases es) auto
next
  case (4 e es new)
  then show ?case by (cases es) auto
next
  case (5 n c ents e es new)
  then show ?case by (cases es) (auto split: if_splits)
qed

lemma lookup_errno:
  "lookup nd cs = Inl en \<Longrightarrow> en = ENOENT \<or> en = ENOTDIR"
  and "lookup_entries ents e es = Inl en \<Longrightarrow> en = ENOENT \<or> en = ENOTDIR"
  by (induction nd cs and ents e es rule: lookup_lookup_entries.induct) (auto split: if_splits)

lemma kind_Inr: "kind (Inr nd) \<noteq> None"
  by (cases nd) auto

lemma safeMkdir_exists: "path_exists fs path \<Longrightarrow> safeMkdir path fs = (None, fs)"
  by (auto simp: path_exists_def safeMkdir_def os_Mkdir_def split: sum.splits)

lemma os_Mkdir_cases:
  "os_Mkdir fs path = (err, fs') \<Longrightarrow>
     (err \<noteq> None \<and> fs' = fs) \<or>
     (err = None \<and> path \<noteq> [] \<and> kind (lookup fs (resolve path)) = None \<and>
        kind (lookup fs (butlast (resolve path))) = Some None \<and>
        fs' = put fs (resolve path) (Dir True []))"
  by (auto simp: os_Mkdir_def split: if_splits sum.splits node.splits)

lemma safeMkdir_cases:
  assumes "safeMkdir path fs = (None, fs')"
  shows "(fs' = fs \<and> path_exists fs path) \<or>
     (path \<noteq> [] \<and> kind (lookup fs (resolve path)) = None \<and>
        kind (lookup fs (butlast (resolve path))) = Some None \<and>
        fs' = put fs (resolve path) (Dir True []))"
proof -
  obtain err fs1 where m: "os_Mkdir fs path = (err, fs1)" by (cases "os_Mkdir fs path")
  show ?thesis
  proof (cases "os_IsExist err")
    case True
    then obtain op p where e: "err = Some (PathError op p EEXIST)"
      by (cases err rule: os_IsExist.cases) auto
    from m e have "path_exists fs path \<and> fs1 = fs"
      using kind_Inr
      by (auto simp: os_Mkdir_def path_exists_def split: if_splits sum.splits node.splits
          dest: lookup_errno(1))
    with assms m True show ?thesis by (simp add: safeMkdir_def)
  next
    case False
    with assms m have "err = None" "fs' = fs1" by (simp_all add: safeMkdir_def)
    with os_Mkdir_cases [OF m] show ?thesis by auto
  qed
qed

lemma safeMkdir_fails: "safeMkdir path fs = (Some err, fs') \<Longrightarrow> fs' = fs"
proof -
  assume a: "safeMkdir path fs = (Some err, fs')"
  obtain e fs1 where m: "os_Mkdir fs path = (e, fs1)" by (cases "os_Mkdir fs path")
  with a have "e = Some err" "fs' = fs1" by (auto simp: safeMkdir_def split: if_splits)
  with os_Mkdir_cases [OF m] show ?thesis by auto
qed

lemma safeMkdir_kind:
  assumes "safeMkdir path fs = (None, fs')"
  shows "kind (lookup fs' cs) =
     (if cs = resolve path \<and> kind (lookup fs cs) = None then Some None else kind (lookup fs cs))"
proof -
  from safeMkdir_cases [OF assms] show ?thesis
  proof
    assume "fs' = fs \<and> path_exists fs path"
    then show ?thesis by (auto simp: path_exists_def)
  next
    assume c: "path \<noteq> [] \<and> kind (lookup fs (resolve path)) = None \<and>
        kind (lookup fs (butlast (resolve path))) = Some None \<and>
        fs' = put fs (resolve path) (Dir True [])"
    show ?thesis
    proof (cases "cs = resolve path")
      case True
      with c have "lookup fs' cs = Inr (Dir True [])"
        using put_lookup_same(1) [of fs "resolve path" "Dir True []"] by simp
      with True c show ?thesis by simp
    next
      case False
      have "kind (lookup (put fs (resolve path) (Dir True [])) cs) = kind (lookup fs cs)"
        using c False by (intro put_kind_other(1)) (simp_all add: leaf_def)
      with False c show ?thesis by simp
    qed
  qed
qed

lemma safeMkdir_path_exists:
  "safeMkdir path fs = (None, fs') \<Longrightarrow> path_exists fs q \<Longrightarrow> path_exists fs' q"
  by (simp add: path_exists_def safeMkdir_kind)

lemma safeMkdir_created:
  "safeMkdir path fs = (None, fs') \<Longrightarrow> path_exists fs' path"
  using safeMkdir_cases [of path fs fs']
  by (auto simp: path_exists_def safeMkdir_kind)

lemma os_ReadFile_kind:
  "os_ReadFile fs name = Inr d \<longleftrightarrow> name \<noteq> [] \<and> kind (lookup fs (resolve name)) = Some (Some d)"
proof (cases "lookup fs (resolve name)")
  case (Inl en)
  then show ?thesis by (simp add: os_ReadFile_def)
next
  case (Inr nd)
  then show ?thesis by (cases nd) (auto simp: os_ReadFile_def)
qed

lemma safeMkdir_files:
  assumes "safeMkdir path fs = (err, fs')"
  shows "os_ReadFile fs' name = Inr d \<longleftrightarrow> os_ReadFile fs name = Inr d"
proof (cases err)
  case None
  with assms show ?thesis by (auto simp: os_ReadFile_kind safeMkdir_kind)
next
  case (Some e)
  with assms have "fs' = fs" by (simp add: safeMkdir_fails)
  then show ?thesis by simp
qed

lemma recursiveCopyDir_loop_files:
  "recursiveCopyDir_loop rmt dirs fs = (err, fs') \<Longrightarrow>
   os_ReadFile fs' name = Inr d \<longleftrightarrow> os_ReadFile fs name = Inr d"
proof (induction dirs arbitrary: fs)
  case Nil
  then show ?case by simp
next
  case (Cons dir dirs)
  obtain e fs1 where m: "safeMkdir (filepath_Join [rmt, dir]) fs = (e, fs1)"
    by (cases "safeMkdir (filepath_Join [rmt, dir]) fs")
  note f = safeMkdir_files [OF m, of name d]
  show ?case
  proof (cases e)
    case None
    with Cons.prems m have "recursiveCopyDir_loop rmt dirs fs1 = (err, fs')"
      by (simp del: filepath_Join.simps)
    from Cons.IH [OF this] f show ?thesis by simp
  next
    case (Some x)
    with Cons.prems m have "fs' = fs1" by (simp del: filepath_Join.simps)
    with f show ?thesis by simp
  qed
qed

lemma recursiveCopyDir_files:
  assumes "recursiveCopyDir src rmt fs = (err, fs')"
  shows "os_ReadFile fs' name = Inr d \<longleftrightarrow> os_ReadFile fs name = Inr d"
proof -
  obtain e fs1 where m: "safeMkdir rmt fs = (e, fs1)" by (cases "safeMkdir rmt fs")
  note f = safeMkdir_files [OF m, of name d]
  show ?thesis
  proof (cases e)
    case (Some x)
    with assms m have "fs' = fs1" by (simp add: recursiveCopyDir_def)
    with f show ?thesis by simp
  next
    case None
    show ?thesis
    proof (cases "recursiveGetDirs fs1 src")
      case (Inl x)
      with assms m None have "fs' = fs1" by (simp add: recursiveCopyDir_def)
      with f show ?thesis by simp
    next
      case (Inr dirs)
      with assms m None have "recursiveCopyDir_loop rmt dirs fs1 = (err, fs')"
        by (simp add: recursiveCopyDir_def)
      from recursiveCopyDir_loop_files [OF this] f show ?thesis by simp
    qed
  qed
qed

lemma recursiveCopyDir_loop_exists:
  "\<forall>dir \<in> set dirs. path_exists fs (filepath_Join [rmt, dir]) \<Longrightarrow>
   recursiveCopyDir_loop rmt dirs fs = (None, fs)"
  by (induction dirs) (simp_all add: safeMkdir_exists del: filepath_Join.simps)

lemma recursiveCopyDir_loop_done:
  "recursiveCopyDir_loop rmt dirs fs = (None, fs') \<Longrightarrow>
   (\<forall>q. path_exists fs q \<longrightarrow> path_exists fs' q) \<and>
   (\<forall>dir \<in> set dirs. path_exists fs' (filepath_Join [rmt, dir]))"
proof (induction dirs arbitrary: fs)
  case Nil
  then show ?case by simp
next
  case (Cons dir dirs)
  obtain e fs1 where m: "safeMkdir (filepath_Join [rmt, dir]) fs = (e, fs1)"
    by (cases "safeMkdir (filepath_Join [rmt, dir]) fs")
  with Cons.prems have e: "e = None" and r: "recursiveCopyDir_loop rmt dirs fs1 = (None, fs')"
    by (cases e; simp del: filepath_Join.simps)+
  from m e have m': "safeMkdir (filepath_Join [rmt, dir]) fs = (None, fs1)" by simp
  from Cons.IH [OF r] have ih: "\<forall>q. path_exists fs1 q \<longrightarrow> path_exists fs' q"
    "\<forall>dir \<in> set dirs. path_exists fs' (filepath_Join [rmt, dir])" by auto
  have "path_exists fs1 (filepath_Join [rmt, dir])" using m' by (rule safeMkdir_created)
  moreover have "\<forall>q. path_exists fs q \<longrightarrow> path_exists fs1 q"
    using m' safeMkdir_path_exists by blast
  ultimately show ?case using ih by (auto simp del: filepath_Join.simps)
qed

section \<open>The loops of Run\<close>

lemma load_all_fail:
  "i < length tfs \<Longrightarrow> LoadInput fs (tfs ! i) = Inl err \<Longrightarrow>
   \<forall>j < i. \<exists>tf. LoadInput fs (tfs ! j) = Inr tf \<Longrightarrow> load_all fs tfs = Inl err"
proof (induction tfs arbitrary: i)
  case Nil
  then show ?case by simp
next
  case (Cons t tfs)
  show ?case
  proof (cases i)
    case 0
    with Cons.prems show ?thesis by simp
  next
    case (Suc k)
    with Cons.prems(3) obtain tf where t: "LoadInput fs t = Inr tf" by fastforce
    have "\<forall>j < k. \<exists>tf. LoadInput fs (tfs ! j) = Inr tf"
      using Cons.prems(3) Suc by fastforce
    with Cons.IH [of k] Cons.prems(1,2) Suc have "load_all fs tfs = Inl err" by simp
    with t show ?thesis by simp
  qed
qed

lemma load_all_ok:
  "load_all fs tfs = Inr loaded \<Longrightarrow>
   length loaded = length tfs \<and> (\<forall>i < length tfs. LoadInput fs (tfs ! i) = Inr (loaded ! i))"
proof (induction tfs arbitrary: loaded)
  case Nil
  then show ?case by simp
next
  case (Cons t tfs)
  from Cons.prems obtain tf rest where
    t: "LoadInput fs t = Inr tf" and r: "load_all fs tfs = Inr rest" and l: "loaded = tf # rest"
    by (auto split: sum.splits)
  from Cons.IH [OF r] t l show ?case by (auto simp: nth_Cons split: nat.splits)
qed

lemma template_all_fail:
  "i < length tfs \<Longrightarrow> Template eng (tfs ! i) = Inl err \<Longrightarrow>
   \<forall>j < i. \<exists>tf. Template eng (tfs ! j) = Inr tf \<Longrightarrow> template_all eng tfs = Inl err"
proof (induction tfs arbitrary: i)
  case Nil
  then show ?case by simp
next
  case (Cons t tfs)
  show ?case
  proof (cases i)
    case 0
    with Cons.prems show ?thesis by simp
  next
    case (Suc k)
    with Cons.prems(3) obtain tf where t: "Template eng t = Inr tf" by fastforce
    have "\<forall>j < k. \<exists>tf. Template eng (tfs ! j) = Inr tf"
      using Cons.prems(3) Suc by fastforce
    with Cons.IH [of k] Cons.prems(1,2) Suc have "template_all eng tfs = Inl err" by simp
    with t show ?thesis by simp
  qed
qed

lemma template_all_ok:
  "template_all eng tfs = Inr rendered \<Longrightarrow>
   length rendered = length tfs \<and> (\<forall>i < length tfs. Template eng (tfs ! i) = Inr (rendered ! i))"
proof (induction tfs arbitrary: rendered)
  case Nil
  then show ?case by simp
next
  case (Cons t tfs)
  from Cons.prems obtain tf rest where
    t: "Template eng t = Inr tf" and r: "template_all eng tfs = Inr rest" and l: "rendered = tf # rest"
    by (auto split: sum.splits)
  from Cons.IH [OF r] t l show ?case by (auto simp: nth_Cons split: nat.splits)
qed

lemma save_all_fail:
  "i < length tfs \<Longrightarrow> save_all (take i tfs) fs = (None, fs2) \<Longrightarrow>
   SaveOutput (tfs ! i) fs2 = (Some err, fs3) \<Longrightarrow> save_all tfs fs = (Some err, fs3)"
proof (induction tfs arbitrary: i fs)
  case Nil
  then show ?case by simp
next
  case (Cons t tfs)
  show ?case
  proof (cases i)
    case 0
    with Cons.prems show ?thesis by simp
  next
    case (Suc k)
    obtain e fs1 where s: "SaveOutput t fs = (e, fs1)" by (cases "SaveOutput t fs")
    with Cons.prems(2) Suc have e: "e = None" and r: "save_all (take k tfs) fs1 = (None, fs2)"
      by (cases e; simp)+
    from Cons.IH [of k fs1] Cons.prems(1,3) Suc r have "save_all tfs fs1 = (Some err, fs3)" by simp
    with s e show ?thesis by simp
  qed
qed

lemma Run_setup_files:
  assumes "Run_setup environ flags fs = (r, fs1)"
  shows "os_ReadFile fs1 name = Inr d \<longleftrightarrow> os_ReadFile fs name = Inr d"
proof (cases "ID flags \<noteq> []")
  case False
  with assms have "fs1 = fs" by (auto simp: Run_setup_def split: sum.splits)
  then show ?thesis by simp
next
  case True
  obtain e fs' where c: "recursiveCopyDir (ID flags) (OD flags) fs = (e, fs')"
    by (cases "recursiveCopyDir (ID flags) (OD flags) fs")
  with assms True have "fs1 = fs'"
    by (auto simp: Run_setup_def split: option.splits sum.splits)
  with recursiveCopyDir_files [OF c] show ?thesis by simp
qed

section \<open>A second run of the mirroring\<close>

text \<open>
  Creating a directory changes no place of the tree that is not above it; the listing of
  a directory depends on the node at its place only; and every path listed is a relative
  path of valid names, so its mirror lies below the destination root.
\<close>

lemma put_lookup_other:
  "kind (lookup nd cs) = None \<Longrightarrow> \<not> prefix s cs \<Longrightarrow>
     lookup (put nd cs (Dir True [])) s = lookup nd s"
  and "kind (lookup_entries ents e es) = None \<Longrightarrow> \<not> prefix (e' # es') (e # es) \<Longrightarrow>
     lookup_entries (put_entries ents e es (Dir True [])) e' es' = lookup_entries ents e' es'"
proof (induction nd cs "Dir True []" and ents e es "Dir True []" arbitrary: s and e' es'
    rule: put_put_entries.induct)
  case (1 n)
  then show ?case using kind_Inr [of n] by simp
next
  case (2 d e es)
  then show ?case by simp
next
  case (3 r ents e es)
  then show ?case by (cases s) auto
next
  case (4 e es)
  then show ?case by (cases es') (auto split: if_splits)
next
  case (5 n c ents e es)
  then show ?case by auto
qed

lemma not_prefix_append:
  "\<not> prefix a b \<Longrightarrow> \<not> prefix b a \<Longrightarrow> \<not> prefix a (b @ c)"
  by (auto simp: prefix_append)

lemma os_ReadDir_lookup_cong:
  "lookup fs' (resolve path) = lookup fs (resolve path) \<Longrightarrow> os_ReadDir fs' path = os_ReadDir fs path"
  by (simp add: os_ReadDir_def)

lemma os_ReadDir_valid:
  "os_ReadDir fs path = Inr entries \<Longrightarrow> entry \<in> set entries \<Longrightarrow> valid_name (Name entry)"
  by (auto simp: os_ReadDir_def split: if_splits sum.splits node.splits)

lemma lookup_child_cong:
  "lookup fs' cs = lookup fs cs \<Longrightarrow> lookup fs' (cs @ [n]) = lookup fs (cs @ [n])"
  by (simp add: lookup_snoc)

lemma recursiveGetDirs_lookup_cong:
  "lookup fs' (resolve path) = lookup fs (resolve path) \<Longrightarrow>
   recursiveGetDirs fs' path = recursiveGetDirs fs path"
proof (induction fs path rule: recursiveGetDirs.induct)
  case (1 fs path)
  have rd: "os_ReadDir fs' path = os_ReadDir fs path"
    using "1.prems" by (rule os_ReadDir_lookup_cong)
  show ?case
  proof (cases "os_ReadDir fs path")
    case (Inl err)
    with rd show ?thesis
      by (simp add: recursiveGetDirs.simps [of fs path] recursiveGetDirs.simps [of fs' path])
  next
    case (Inr entries)
    have sub: "recursiveGetDirs fs' (filepath_Join [path, Name entry]) =
               recursiveGetDirs fs (filepath_Join [path, Name entry])"
      if "entry \<in> set entries" "IsDir entry" for entry
    proof -
      have v: "valid_name (Name entry)" using Inr that(1) by (rule os_ReadDir_valid)
      have "lookup fs' (resolve (filepath_Join [path, Name entry])) =
            lookup fs (resolve (filepath_Join [path, Name entry]))"
        unfolding resolve_Join [OF v] using "1.prems" by (rule lookup_child_cong)
      with "1.IH" [OF Inr that(1)] that(2) show ?thesis by simp
    qed
    have "foldE (\<lambda>entry dirs.
              if \<not> IsDir entry then Inr dirs
              else case recursiveGetDirs fs' (filepath_Join [path, Name entry]) of
                     Inl err \<Rightarrow> Inl err
                   | Inr subdirs \<Rightarrow>
                       Inr ((dirs @ [Name entry]) @
                            map (\<lambda>subdir. filepath_Join [Name entry, subdir]) subdirs))
            entries [] =
          foldE (\<lambda>entry dirs.
              if \<not> IsDir entry then Inr dirs
              else case recursiveGetDirs fs (filepath_Join [path, Name entry]) of
                     Inl err \<Rightarrow> Inl err
                   | Inr subdirs \<Rightarrow>
                       Inr ((dirs @ [Name entry]) @
                            map (\<lambda>subdir. filepath_Join [Name entry, subdir]) subdirs))
            entries []"
      by (rule foldE_cong) (auto simp: sub simp del: filepath_Join.simps)
    with rd Inr show ?thesis
      by (simp add: recursiveGetDirs.simps [of fs path] recursiveGetDirs.simps [of fs' path]
          del: filepath_Join.simps)
  qed
qed

lemma clean_elems_real:
  "\<forall>e \<in> set es. real_elem e \<Longrightarrow> clean_elems r out es = out @ es"
proof (induction es arbitrary: out)
  case Nil
  then show ?case by simp
next
  case (Cons e es)
  then have e: "e \<noteq> []" "e \<noteq> ''.''" "e \<noteq> ''..''" and r: "\<forall>x \<in> set es. real_elem x"
    by (simp_all add: real_elem_def)
  have "clean_elems r out (e # es) = clean_elems r (out @ [e]) es"
    using e by (simp only: clean_elems.simps if_False simp_thms)
  also have "\<dots> = (out @ [e]) @ es" using r by (rule Cons.IH)
  finally show ?case by simp
qed

lemma strings_Join_hd:
  "cs \<noteq> [] \<Longrightarrow> hd cs \<noteq> [] \<Longrightarrow> strings_Join cs sep \<noteq> [] \<and> hd (strings_Join cs sep) = hd (hd cs)"
proof (cases cs)
  case Nil
  assume "cs \<noteq> []"
  with Nil show ?thesis by simp
next
  case (Cons a rest)
  assume "hd cs \<noteq> []"
  with Cons show ?thesis by (cases rest) auto
qed

lemma Clean_valid:
  assumes "cs \<noteq> []" and "\<forall>c \<in> set cs. valid_name c"
  shows "Clean (strings_Join cs ''/'') = strings_Join cs ''/''"
proof -
  let ?q = "strings_Join cs ''/''"
  have v: "valid_name (hd cs)" using assms by simp
  then have hne: "hd cs \<noteq> []" by (simp add: valid_name_def)
  have h: "?q \<noteq> []" "hd ?q = hd (hd cs)"
    using strings_Join_hd [OF assms(1) hne, of "''/''"] by simp_all
  have "hd (hd cs) \<in> set (hd cs)" using hne by simp
  moreover have "CHR ''/'' \<notin> set (hd cs)" using v by (simp add: valid_name_def)
  ultimately have nr: "hd ?q \<noteq> CHR ''/''" using h(2) by auto
  have sf: "\<forall>e \<in> set cs. CHR ''/'' \<notin> set e" using assms(2) by (simp add: valid_name_def)
  have pe: "path_elems ?q = cs"
    using assms(1) sf by (rule path_elems_Join)
  have re: "\<forall>e \<in> set cs. real_elem e" using assms(2) by (simp add: valid_name_real)
  have ce: "clean_elems False [] cs = cs"
    using clean_elems_real [OF re, of False "[]"] by simp
  show ?thesis
    using h(1) nr pe ce assms(1) by (simp add: Clean_def)
qed

lemma filepath_Join_valid:
  assumes "valid_name n" and "cs \<noteq> []" and "\<forall>c \<in> set cs. valid_name c"
  shows "filepath_Join [n, strings_Join cs ''/''] = strings_Join (n # cs) ''/''"
proof -
  have n: "n \<noteq> []" using assms(1) by (simp add: valid_name_def)
  have j: "strings_Join [n, strings_Join cs ''/''] ''/'' = strings_Join (n # cs) ''/''"
    using assms(2) by (cases cs) auto
  have "filepath_Join [n, strings_Join cs ''/''] = Clean (strings_Join [n, strings_Join cs ''/''] ''/'')"
    using n by simp
  also have "\<dots> = Clean (strings_Join (n # cs) ''/'')" by (simp only: j)
  also have "\<dots> = strings_Join (n # cs) ''/''"
    using assms by (intro Clean_valid) auto
  finally show ?thesis .
qed

lemma rel_path_name: "valid_name n \<Longrightarrow> rel_path n"
  unfolding rel_path_def by (intro exI [of _ "[n]"]) simp

lemma rel_path_Join: "valid_name n \<Longrightarrow> rel_path d \<Longrightarrow> rel_path (filepath_Join [n, d])"
proof -
  assume n: "valid_name n" and "rel_path d"
  then obtain cs where cs: "cs \<noteq> []" "\<forall>c \<in> set cs. valid_name c" "d = strings_Join cs ''/''"
    unfolding rel_path_def by blast
  have "filepath_Join [n, d] = strings_Join (n # cs) ''/''"
    unfolding cs(3) using n cs(1,2) by (rule filepath_Join_valid)
  then show ?thesis unfolding rel_path_def using n cs(2) by (intro exI [of _ "n # cs"]) simp
qed

lemma foldE_invariant:
  "P acc \<Longrightarrow> \<forall>x \<in> set xs. \<forall>a b. P a \<longrightarrow> f x a = Inr b \<longrightarrow> P b \<Longrightarrow>
   foldE f xs acc = Inr r \<Longrightarrow> P r"
proof (induction xs arbitrary: acc)
  case Nil
  from Nil.prems(3) have "r = acc" by simp
  with Nil.prems(1) show ?case by (simp only:)
next
  case (Cons x xs)
  show ?case
  proof (cases "f x acc")
    case (Inl e)
    have "foldE f (x # xs) acc = Inl e" by (simp only: foldE.simps Inl sum.case)
    with Cons.prems(3) show ?thesis by (simp only: sum.distinct)
  next
    case (Inr b)
    have "foldE f (x # xs) acc = foldE f xs b" by (simp only: foldE.simps Inr sum.case)
    with Cons.prems(3) have r: "foldE f xs b = Inr r" by (simp only:)
    have xin: "x \<in> set (x # xs)" by (simp only: list.set_intros)
    have h: "P acc \<longrightarrow> f x acc = Inr b \<longrightarrow> P b"
      by (rule spec [OF spec [OF bspec [OF Cons.prems(2) xin]]])
    have pb: "P b" by (rule mp [OF mp [OF h Cons.prems(1)] Inr])
    have t: "\<forall>y \<in> set xs. \<forall>a b. P a \<longrightarrow> f y a = Inr b \<longrightarrow> P b"
    proof
      fix y assume "y \<in> set xs"
      then have "y \<in> set (x # xs)" by (rule list.set_intros(2))
      with Cons.prems(2) show "\<forall>a b. P a \<longrightarrow> f y a = Inr b \<longrightarrow> P b" by (rule bspec)
    qed
    from pb t r show ?thesis by (rule Cons.IH)
  qed
qed

lemma recursiveGetDirs_rel_path:
  "recursiveGetDirs fs path = Inr dirs \<Longrightarrow> rel_paths dirs"
proof (induction fs path arbitrary: dirs rule: recursiveGetDirs.induct)
  case (1 fs path)
  from "1.prems" obtain entries where rd: "os_ReadDir fs path = Inr entries"
    by (cases "os_ReadDir fs path") (simp_all add: recursiveGetDirs.simps [of fs path])
  define f where "f = (\<lambda>(entry :: DirEntry) (dirs :: string list).
              if \<not> IsDir entry then Inr dirs
              else case recursiveGetDirs fs (filepath_Join [path, Name entry]) of
                     Inl err \<Rightarrow> Inl err
                   | Inr subdirs \<Rightarrow>
                       Inr ((dirs @ [Name entry]) @
                            map (\<lambda>subdir. filepath_Join [Name entry, subdir]) subdirs))"
  have fe: "foldE f entries [] = Inr dirs"
    using "1.prems" rd unfolding f_def
    by (simp add: recursiveGetDirs.simps [of fs path] del: filepath_Join.simps)
  have step: "rel_paths b"
    if x: "x \<in> set entries" and a: "rel_paths a" and fx: "f x a = Inr b" for x a b
  proof (cases "IsDir x")
    case False
    with fx a show ?thesis by (simp add: f_def)
  next
    case True
    with fx obtain subdirs where
      s: "recursiveGetDirs fs (filepath_Join [path, Name x]) = Inr subdirs" and
      b: "b = (a @ [Name x]) @ map (\<lambda>subdir. filepath_Join [Name x, subdir]) subdirs"
      unfolding f_def
      by (cases "recursiveGetDirs fs (filepath_Join [path, Name x])")
        (simp_all del: filepath_Join.simps)
    have v: "valid_name (Name x)" using rd x by (rule os_ReadDir_valid)
    have "rel_paths subdirs" using "1.IH" [OF rd x _ s] True by simp
    then have "\<forall>d \<in> set (map (\<lambda>subdir. filepath_Join [Name x, subdir]) subdirs). rel_path d"
      using v rel_path_Join by (simp add: rel_paths_def del: filepath_Join.simps)
    moreover have "rel_path (Name x)" using v by (rule rel_path_name)
    ultimately show ?thesis
      using a unfolding b rel_paths_def by (auto simp del: filepath_Join.simps)
  qed
  have inv: "\<forall>x \<in> set entries. \<forall>a b. rel_paths a \<longrightarrow> f x a = Inr b \<longrightarrow> rel_paths b"
    using step by blast
  have init: "rel_paths []" by (simp add: rel_paths_def)
  from init inv fe show ?case by (rule foldE_invariant)
qed

lemma resolve_Join_rel:
  assumes "rmt \<noteq> []" and "rel_path d"
  shows "\<exists>cs. resolve (filepath_Join [rmt, d]) = resolve rmt @ cs"
proof -
  from assms(2) obtain cs where cs: "cs \<noteq> []" "\<forall>c \<in> set cs. valid_name c"
    "d = strings_Join cs ''/''" unfolding rel_path_def by blast
  have sf: "\<forall>e \<in> set cs. CHR ''/'' \<notin> set e" using cs(2) by (simp add: valid_name_def)
  have re: "\<forall>e \<in> set cs. real_elem e" using cs(2) by (simp add: valid_name_real)
  have pe: "path_elems d = cs" unfolding cs(3) using cs(1) sf by (rule path_elems_Join)
  have "filepath_Join [rmt, d] = Clean (rmt @ CHR ''/'' # d)" using assms(1) by simp
  then have "resolve (filepath_Join [rmt, d]) = resolve (rmt @ CHR ''/'' # d)"
    by (simp only: resolve_Clean)
  also have "\<dots> = resolve_elems [] (path_elems rmt @ cs)"
    by (simp only: resolve_def path_elems_append pe)
  also have "\<dots> = resolve_elems (resolve rmt) cs"
    by (simp only: resolve_elems_append resolve_def)
  also have "\<dots> = resolve rmt @ cs" using re by (rule resolve_elems_all_real)
  finally show ?thesis by blast
qed

lemma safeMkdir_lookup_other:
  assumes "safeMkdir p fs = (None, fs')" and "\<not> prefix s (resolve p)"
  shows "lookup fs' s = lookup fs s"
proof -
  from safeMkdir_cases [OF assms(1)] show ?thesis
  proof
    assume "fs' = fs \<and> path_exists fs p"
    then show ?thesis by simp
  next
    assume c: "p \<noteq> [] \<and> kind (lookup fs (resolve p)) = None \<and>
        kind (lookup fs (butlast (resolve p))) = Some None \<and>
        fs' = put fs (resolve p) (Dir True [])"
    then have k: "kind (lookup fs (resolve p)) = None" by simp
    have "lookup (put fs (resolve p) (Dir True [])) s = lookup fs s"
      using k assms(2) by (rule put_lookup_other(1))
    with c show ?thesis by simp
  qed
qed

lemma recursiveCopyDir_loop_lookup_other:
  "recursiveCopyDir_loop rmt dirs fs = (None, fs') \<Longrightarrow> rmt \<noteq> [] \<Longrightarrow> rel_paths dirs \<Longrightarrow>
   \<not> prefix s (resolve rmt) \<Longrightarrow> \<not> prefix (resolve rmt) s \<Longrightarrow> lookup fs' s = lookup fs s"
proof (induction dirs arbitrary: fs)
  case Nil
  then show ?case by simp
next
  case (Cons dir dirs)
  obtain e fs1 where m: "safeMkdir (filepath_Join [rmt, dir]) fs = (e, fs1)"
    by (cases "safeMkdir (filepath_Join [rmt, dir]) fs")
  with Cons.prems(1) have e: "e = None" and r: "recursiveCopyDir_loop rmt dirs fs1 = (None, fs')"
    by (cases e; simp del: filepath_Join.simps)+
  from m e have m': "safeMkdir (filepath_Join [rmt, dir]) fs = (None, fs1)" by simp
  have rp: "rel_path dir" "rel_paths dirs" using Cons.prems(3) by (simp_all add: rel_paths_def)
  from resolve_Join_rel [OF Cons.prems(2) rp(1)] obtain cs where
    cs: "resolve (filepath_Join [rmt, dir]) = resolve rmt @ cs" by blast
  have "\<not> prefix s (resolve rmt @ cs)"
    using Cons.prems(4,5) by (rule not_prefix_append)
  then have "\<not> prefix s (resolve (filepath_Join [rmt, dir]))" unfolding cs .
  with m' have "lookup fs1 s = lookup fs s" by (rule safeMkdir_lookup_other)
  moreover have "lookup fs' s = lookup fs1 s"
    using r Cons.prems(2) rp(2) Cons.prems(4,5) by (rule Cons.IH)
  ultimately show ?case by simp
qed

lemma safeMkdir_ne: "safeMkdir p fs = (None, fs') \<Longrightarrow> p \<noteq> []"
  using safeMkdir_cases [of p fs fs'] by (auto simp: path_exists_def)

lemma recursiveCopyDir_all_exist:
  assumes "path_exists fs rmt" and "recursiveGetDirs fs src = Inr dirs"
    and "\<forall>dir \<in> set dirs. path_exists fs (filepath_Join [rmt, dir])"
  shows "recursiveCopyDir src rmt fs = (None, fs)"
proof -
  from assms(3) have "recursiveCopyDir_loop rmt dirs fs = (None, fs)"
    by (rule recursiveCopyDir_loop_exists)
  with assms(1,2) show ?thesis by (simp add: recursiveCopyDir_def safeMkdir_exists)
qed

text \<open>
  The destination root at the place of the source root: every path listed leads to a
  directory, which is its own mirror, so the run creates nothing.
\<close>

lemma clean_elems_nonempty:
  "\<forall>e \<in> set out. e \<noteq> [] \<Longrightarrow> \<forall>e \<in> set (clean_elems r out es). e \<noteq> []"
proof (induction es arbitrary: out)
  case Nil
  then show ?case by simp
next
  case (Cons e es)
  define out' where "out' = (if e = [] \<or> e = ''.'' then out
        else if e = ''..'' then
          (if out \<noteq> [] \<and> last out \<noteq> ''..'' then butlast out
           else if \<not> r then out @ [''..'']
           else out)
        else out @ [e])"
  have "\<forall>x \<in> set out'. x \<noteq> []"
    unfolding out'_def using Cons.prems by (auto dest: in_set_butlastD)
  then have "\<forall>x \<in> set (clean_elems r out' es). x \<noteq> []" by (rule Cons.IH)
  moreover have "clean_elems r out (e # es) = clean_elems r out' es"
    unfolding out'_def by (simp only: clean_elems.simps)
  ultimately show ?case by (simp only:)
qed

lemma Clean_ne: "Clean q \<noteq> []"
proof (cases "q = []")
  case True
  then show ?thesis by (simp add: Clean_def)
next
  case False
  define rooted where "rooted = (hd q = CHR ''/'')"
  define out where "out = clean_elems rooted [] (path_elems q)"
  have c: "Clean q = (if rooted then CHR ''/'' # strings_Join out ''/''
              else if out = [] then ''.'' else strings_Join out ''/'')"
    using False by (simp add: Clean_def rooted_def out_def Let_def)
  have ne: "\<forall>e \<in> set out. e \<noteq> []"
    unfolding out_def by (rule clean_elems_nonempty) simp
  show ?thesis
  proof (cases "rooted \<or> out = []")
    case True
    with c show ?thesis by auto
  next
    case False
    then have o: "out \<noteq> []" "\<not> rooted" by simp_all
    then have "hd out \<noteq> []" using ne by simp
    with o(1) have "strings_Join out ''/'' \<noteq> []"
      using strings_Join_hd [of out "''/''"] by simp
    with c o show ?thesis by simp
  qed
qed

lemma filepath_Join_ne: "n \<noteq> [] \<Longrightarrow> filepath_Join [p, n] \<noteq> []"
  by (simp add: Clean_ne)

lemma resolve_Join_cs:
  assumes "rmt \<noteq> []" and "cs \<noteq> []" and "\<forall>c \<in> set cs. valid_name c"
  shows "resolve (filepath_Join [rmt, strings_Join cs ''/'']) = resolve rmt @ cs"
proof -
  let ?d = "strings_Join cs ''/''"
  have sf: "\<forall>e \<in> set cs. CHR ''/'' \<notin> set e" using assms(3) by (simp add: valid_name_def)
  have re: "\<forall>e \<in> set cs. real_elem e" using assms(3) by (simp add: valid_name_real)
  have pe: "path_elems ?d = cs" using assms(2) sf by (rule path_elems_Join)
  have "filepath_Join [rmt, ?d] = Clean (rmt @ CHR ''/'' # ?d)" using assms(1) by simp
  then have "resolve (filepath_Join [rmt, ?d]) = resolve (rmt @ CHR ''/'' # ?d)"
    by (simp only: resolve_Clean)
  also have "\<dots> = resolve_elems [] (path_elems rmt @ cs)"
    by (simp only: resolve_def path_elems_append pe)
  also have "\<dots> = resolve_elems (resolve rmt) cs"
    by (simp only: resolve_elems_append resolve_def)
  also have "\<dots> = resolve rmt @ cs" using re by (rule resolve_elems_all_real)
  finally show ?thesis .
qed

lemma os_ReadDir_dir:
  "os_ReadDir fs p = Inr entries \<Longrightarrow> kind (lookup fs (resolve p)) = Some None"
  by (auto simp: os_ReadDir_def split: if_splits sum.splits node.splits)

lemma recursiveGetDirs_dir:
  "recursiveGetDirs fs p = Inr ds \<Longrightarrow> kind (lookup fs (resolve p)) = Some None"
proof -
  assume a: "recursiveGetDirs fs p = Inr ds"
  then obtain entries where "os_ReadDir fs p = Inr entries"
    by (cases "os_ReadDir fs p") (simp_all add: recursiveGetDirs.simps [of fs p])
  then show ?thesis by (rule os_ReadDir_dir)
qed

lemma listed_Nil: "listed fs place []"
  by (simp add: listed_def)

lemma listed_append: "listed fs place a \<Longrightarrow> listed fs place b \<Longrightarrow> listed fs place (a @ b)"
  by (auto simp: listed_def)

lemma listed_name:
  "valid_name n \<Longrightarrow> kind (lookup fs (place @ [n])) = Some None \<Longrightarrow> listed fs place [n]"
  unfolding listed_def by (auto intro!: exI [of _ "[n]"])

lemma listed_sub:
  assumes n: "valid_name n" and s: "listed fs (place @ [n]) subdirs"
  shows "listed fs place (map (\<lambda>subdir. filepath_Join [n, subdir]) subdirs)"
  unfolding listed_def
proof
  fix d assume "d \<in> set (map (\<lambda>subdir. filepath_Join [n, subdir]) subdirs)"
  then obtain d' where d': "d' \<in> set subdirs" "d = filepath_Join [n, d']"
    by (auto simp del: filepath_Join.simps)
  from s d'(1) obtain cs where cs: "cs \<noteq> []" "\<forall>c \<in> set cs. valid_name c"
    "d' = strings_Join cs ''/''" "kind (lookup fs ((place @ [n]) @ cs)) = Some None"
    unfolding listed_def by blast
  have "d = strings_Join (n # cs) ''/''"
    unfolding d'(2) cs(3) using n cs(1,2) by (rule filepath_Join_valid)
  moreover have "kind (lookup fs (place @ n # cs)) = Some None" using cs(4) by simp
  moreover have "\<forall>c \<in> set (n # cs). valid_name c" using n cs(2) by simp
  ultimately show "\<exists>cs. cs \<noteq> [] \<and> (\<forall>c \<in> set cs. valid_name c) \<and>
        d = strings_Join cs ''/'' \<and> kind (lookup fs (place @ cs)) = Some None"
    by (intro exI [of _ "n # cs"]) simp
qed

lemma recursiveGetDirs_listed:
  "recursiveGetDirs fs path = Inr dirs \<Longrightarrow> listed fs (resolve path) dirs"
proof (induction fs path arbitrary: dirs rule: recursiveGetDirs.induct)
  case (1 fs path)
  from "1.prems" obtain entries where rd: "os_ReadDir fs path = Inr entries"
    by (cases "os_ReadDir fs path") (simp_all add: recursiveGetDirs.simps [of fs path])
  define f where "f = (\<lambda>(entry :: DirEntry) (dirs :: string list).
              if \<not> IsDir entry then Inr dirs
              else case recursiveGetDirs fs (filepath_Join [path, Name entry]) of
                     Inl err \<Rightarrow> Inl err
                   | Inr subdirs \<Rightarrow>
                       Inr ((dirs @ [Name entry]) @
                            map (\<lambda>subdir. filepath_Join [Name entry, subdir]) subdirs))"
  define P where "P = listed fs (resolve path)"
  have fe: "foldE f entries [] = Inr dirs"
    using "1.prems" rd unfolding f_def
    by (simp add: recursiveGetDirs.simps [of fs path] del: filepath_Join.simps)
  have step: "P b"
    if x: "x \<in> set entries" and a: "P a" and fx: "f x a = Inr b" for x a b
  proof (cases "IsDir x")
    case False
    with fx a show ?thesis by (simp add: f_def)
  next
    case True
    with fx obtain subdirs where
      s: "recursiveGetDirs fs (filepath_Join [path, Name x]) = Inr subdirs" and
      b: "b = (a @ [Name x]) @ map (\<lambda>subdir. filepath_Join [Name x, subdir]) subdirs"
      unfolding f_def
      by (cases "recursiveGetDirs fs (filepath_Join [path, Name x])")
        (simp_all del: filepath_Join.simps)
    have v: "valid_name (Name x)" using rd x by (rule os_ReadDir_valid)
    have rj: "resolve (filepath_Join [path, Name x]) = resolve path @ [Name x]"
      using v by (rule resolve_Join)
    have ih: "listed fs (resolve path @ [Name x]) subdirs"
      using "1.IH" [OF rd x _ s] True unfolding rj by simp
    have k: "kind (lookup fs (resolve path @ [Name x])) = Some None"
      using recursiveGetDirs_dir [OF s] unfolding rj .
    have l1: "listed fs (resolve path) [Name x]" using v k by (rule listed_name)
    have l2: "listed fs (resolve path) (map (\<lambda>subdir. filepath_Join [Name x, subdir]) subdirs)"
      using v ih by (rule listed_sub)
    have "listed fs (resolve path) a" using a by (simp only: P_def)
    then have "listed fs (resolve path) (a @ [Name x])" using l1 by (rule listed_append)
    then have "listed fs (resolve path) b" unfolding b using l2 by (rule listed_append)
    then show ?thesis by (simp only: P_def)
  qed
  have inv: "\<forall>x \<in> set entries. \<forall>a b. P a \<longrightarrow> f x a = Inr b \<longrightarrow> P b"
    using step by blast
  have init: "P []" unfolding P_def by (rule listed_Nil)
  from init inv fe have "P dirs" by (rule foldE_invariant)
  then show ?case by (simp only: P_def)
qed

lemma listed_exist:
  assumes "listed fs (resolve rmt) ds" and "rmt \<noteq> []"
  shows "\<forall>dir \<in> set ds. path_exists fs (filepath_Join [rmt, dir])"
proof
  fix dir assume "dir \<in> set ds"
  with assms(1) obtain cs where cs: "cs \<noteq> []" "\<forall>c \<in> set cs. valid_name c"
    "dir = strings_Join cs ''/''" "kind (lookup fs (resolve rmt @ cs)) = Some None"
    unfolding listed_def by blast
  have r: "resolve (filepath_Join [rmt, dir]) = resolve rmt @ cs"
    unfolding cs(3) using assms(2) cs(1,2) by (rule resolve_Join_cs)
  have "hd cs \<noteq> []" using cs(1,2) by (simp add: valid_name_def)
  with cs(1) have "dir \<noteq> []" unfolding cs(3) using strings_Join_hd [of cs "''/''"] by simp
  then have "filepath_Join [rmt, dir] \<noteq> []" by (rule filepath_Join_ne)
  moreover have "kind (lookup fs (resolve (filepath_Join [rmt, dir]))) \<noteq> None"
    unfolding r using cs(4) by simp
  ultimately show "path_exists fs (filepath_Join [rmt, dir])"
    unfolding path_exists_def by (rule conjI)
qed

lemma recursiveCopyDir_second_run:
  assumes run: "recursiveCopyDir src rmt fs = (None, fs')"
    and roots: "resolve src = resolve rmt \<or>
      (\<not> prefix (resolve src) (resolve rmt) \<and> \<not> prefix (resolve rmt) (resolve src))"
  shows "recursiveCopyDir src rmt fs' = (None, fs')"
proof -
  obtain e fs1 where m: "safeMkdir rmt fs = (e, fs1)" by (cases "safeMkdir rmt fs")
  with run have e: "e = None" by (cases e) (auto simp: recursiveCopyDir_def)
  with m run obtain ds where ds: "recursiveGetDirs fs1 src = Inr ds"
    and l: "recursiveCopyDir_loop rmt ds fs1 = (None, fs')"
    by (cases "recursiveGetDirs fs1 src") (auto simp: recursiveCopyDir_def)
  from m e have m': "safeMkdir rmt fs = (None, fs1)" by simp
  then have ne: "rmt \<noteq> []" by (rule safeMkdir_ne)
  from m' have ex1: "path_exists fs1 rmt" by (rule safeMkdir_created)
  from roots show ?thesis
  proof
    assume eq: "resolve src = resolve rmt"
    have "listed fs1 (resolve rmt) ds"
      using recursiveGetDirs_listed [OF ds] unfolding eq .
    then have all: "\<forall>dir \<in> set ds. path_exists fs1 (filepath_Join [rmt, dir])"
      using ne by (rule listed_exist)
    then have "recursiveCopyDir_loop rmt ds fs1 = (None, fs1)"
      by (rule recursiveCopyDir_loop_exists)
    with l have "fs' = fs1" by simp
    moreover have "recursiveCopyDir src rmt fs1 = (None, fs1)"
      using ex1 ds all by (rule recursiveCopyDir_all_exist)
    ultimately show ?thesis by simp
  next
    assume "\<not> prefix (resolve src) (resolve rmt) \<and> \<not> prefix (resolve rmt) (resolve src)"
    then have h1: "\<not> prefix (resolve src) (resolve rmt)"
      and h2: "\<not> prefix (resolve rmt) (resolve src)" by simp_all
    have rp: "rel_paths ds" using ds by (rule recursiveGetDirs_rel_path)
    have "lookup fs' (resolve src) = lookup fs1 (resolve src)"
      using l ne rp h1 h2 by (rule recursiveCopyDir_loop_lookup_other)
    then have "recursiveGetDirs fs' src = recursiveGetDirs fs1 src"
      by (rule recursiveGetDirs_lookup_cong)
    with ds have g: "recursiveGetDirs fs' src = Inr ds" by simp
    from recursiveCopyDir_loop_done [OF l] ex1 have ex: "path_exists fs' rmt"
      "\<forall>dir \<in> set ds. path_exists fs' (filepath_Join [rmt, dir])" by auto
    from ex(1) g ex(2) show ?thesis by (rule recursiveCopyDir_all_exist)
  qed
qed

section \<open>Claims about mirroring and the pipeline\<close>




text \<open>
  C2. Let \<open>Run_setup\<close>, the part of \<open>Run\<close> before the three loops, end with the file
  system \<open>fs1\<close>. It has written no file: every file reads in \<open>fs1\<close> as before the run.
  When it fails, \<open>Run\<close> returns its error. Otherwise, for its template files in order:
  when loading a file fails and every file before it was loaded, \<open>Run\<close> returns that
  error with the file system \<open>fs1\<close>; when all are loaded, and rendering a file fails and
  every file before it was rendered, \<open>Run\<close> returns that error with the file system
  \<open>fs1\<close>, so no output file has been written; when all are rendered, \<open>Run\<close> is
  the save loop on the rendered files, and when saving a file fails after the files
  before it were saved, \<open>Run\<close> returns that error.
\<close>

theorem C2_staged_pipeline:
  assumes "Run_setup environ flags fs = (r, fs1)"
  shows "(\<forall>name d. os_ReadFile fs1 name = Inr d \<longleftrightarrow> os_ReadFile fs name = Inr d) \<and>
    (\<forall>err. r = Inl err \<longrightarrow> Run eng environ flags fs = (Some err, fs1)) \<and>
    (\<forall>templateFiles. r = Inr templateFiles \<longrightarrow>
       (\<forall>i err. i < length templateFiles \<and> LoadInput fs1 (templateFiles ! i) = Inl err \<and>
            (\<forall>j < i. \<exists>tf. LoadInput fs1 (templateFiles ! j) = Inr tf)
          \<longrightarrow> Run eng environ flags fs = (Some err, fs1)) \<and>
       (\<forall>loaded. load_all fs1 templateFiles = Inr loaded \<longrightarrow>
          length loaded = length templateFiles \<and>
          (\<forall>i < length templateFiles. LoadInput fs1 (templateFiles ! i) = Inr (loaded ! i)) \<and>
          (\<forall>i err. i < length loaded \<and> Template eng (loaded ! i) = Inl err \<and>
               (\<forall>j < i. \<exists>tf. Template eng (loaded ! j) = Inr tf)
             \<longrightarrow> Run eng environ flags fs = (Some err, fs1)) \<and>
          (\<forall>rendered. template_all eng loaded = Inr rendered \<longrightarrow>
             length rendered = length loaded \<and>
             (\<forall>i < length loaded. Template eng (loaded ! i) = Inr (rendered ! i)) \<and>
             Run eng environ flags fs = save_all rendered fs1 \<and>
             (\<forall>i fs2 err fs3. i < length rendered \<and> save_all (take i rendered) fs1 = (None, fs2) \<and>
                  SaveOutput (rendered ! i) fs2 = (Some err, fs3)
                \<longrightarrow> Run eng environ flags fs = (Some err, fs3)))))"
proof (intro conjI allI impI)
  fix name d
  show "os_ReadFile fs1 name = Inr d \<longleftrightarrow> os_ReadFile fs name = Inr d"
    using assms by (rule Run_setup_files)
next
  fix err assume "r = Inl err"
  with assms show "Run eng environ flags fs = (Some err, fs1)" by (simp add: Run_def)
next
  fix templateFiles i err
  assume r: "r = Inr templateFiles"
    and h: "i < length templateFiles \<and> LoadInput fs1 (templateFiles ! i) = Inl err \<and>
            (\<forall>j < i. \<exists>tf. LoadInput fs1 (templateFiles ! j) = Inr tf)"
  then have "load_all fs1 templateFiles = Inl err" using load_all_fail by blast
  with assms r show "Run eng environ flags fs = (Some err, fs1)" by (simp add: Run_def)
next
  fix templateFiles loaded
  assume "r = Inr templateFiles" and l: "load_all fs1 templateFiles = Inr loaded"
  from load_all_ok [OF l] show "length loaded = length templateFiles" by simp
next
  fix templateFiles loaded i
  assume "r = Inr templateFiles" and l: "load_all fs1 templateFiles = Inr loaded"
    and "i < length templateFiles"
  with load_all_ok [OF l] show "LoadInput fs1 (templateFiles ! i) = Inr (loaded ! i)" by simp
next
  fix templateFiles loaded i err
  assume r: "r = Inr templateFiles" and l: "load_all fs1 templateFiles = Inr loaded"
    and h: "i < length loaded \<and> Template eng (loaded ! i) = Inl err \<and>
               (\<forall>j < i. \<exists>tf. Template eng (loaded ! j) = Inr tf)"
  then have "template_all eng loaded = Inl err" using template_all_fail by blast
  with assms r l show "Run eng environ flags fs = (Some err, fs1)" by (simp add: Run_def)
next
  fix templateFiles loaded rendered
  assume "template_all eng loaded = Inr rendered"
  from template_all_ok [OF this] show "length rendered = length loaded" by simp
next
  fix templateFiles loaded rendered i
  assume t: "template_all eng loaded = Inr rendered" and "i < length loaded"
  with template_all_ok [OF t] show "Template eng (loaded ! i) = Inr (rendered ! i)" by simp
next
  fix templateFiles loaded rendered
  assume "r = Inr templateFiles" "load_all fs1 templateFiles = Inr loaded"
    "template_all eng loaded = Inr rendered"
  with assms show "Run eng environ flags fs = save_all rendered fs1" by (simp add: Run_def)
next
  fix templateFiles loaded rendered i fs2 err fs3
  assume r: "r = Inr templateFiles" "load_all fs1 templateFiles = Inr loaded"
    "template_all eng loaded = Inr rendered"
    and h: "i < length rendered \<and> save_all (take i rendered) fs1 = (None, fs2) \<and>
                  SaveOutput (rendered ! i) fs2 = (Some err, fs3)"
  then have "save_all rendered fs1 = (Some err, fs3)" using save_all_fail by blast
  with assms r show "Run eng environ flags fs = (Some err, fs3)" by (simp add: Run_def)
qed

theorem C2_staged_pipeline_witness:
  "os_ReadFile example_fs ''src/a.txt'' = Inr ''Hello '' \<and>
   Run demo_engine [''N=World''] \<lparr>IF = ''src/a.txt'', OF = ''out.txt'', ID = [], OD = []\<rparr> example_fs
     = (Some (TemplateEvalError (MissingVariable ''NAME'')), example_fs) \<and>
   os_ReadFile example_fs ''out.txt'' = Inl (PathError ''open'' ''out.txt'' ENOENT)"
proof -
  let ?flags = "\<lparr>IF = ''src/a.txt'', OF = ''out.txt'', ID = [], OD = []\<rparr>"
  let ?tx = "\<lparr>envs = [''N'' \<mapsto> ''World'']\<rparr>"
  let ?tf = "NewTemplateFile ?tx ''src/a.txt'' ''out.txt''"
  have rd: "os_ReadFile example_fs ''src/a.txt'' = Inr ''Hello ''" by code_simp
  have no: "os_ReadFile example_fs ''out.txt'' = Inl (PathError ''open'' ''out.txt'' ENOENT)"
    by code_simp
  have tr: "Trim ''World'' (CHR 0x0A) = ''World''" by code_simp
  have tx: "NewTemplateContext [''N=World''] = Inr ?tx"
    using tr by (simp add: NewTemplateContext_def SplitN_2 HasPrefix_def index_def)
  have s: "Run_setup [''N=World''] ?flags example_fs = (Inr [?tf], example_fs)"
    using tx by (simp add: Run_setup_def)
  have l: "load_all example_fs [?tf] = Inr [?tf\<lparr>Input := ''Hello ''\<rparr>]"
    using rd by (simp add: LoadInput_def NewTemplateFile_def)
  have t: "Template demo_engine (?tf\<lparr>Input := ''Hello ''\<rparr>) = Inl (TemplateEvalError (MissingVariable ''NAME''))"
    by (simp add: Template_def demo_engine_def NewTemplateFile_def Env_def)
  from C2_staged_pipeline [OF s, of demo_engine] l
  have "\<forall>i err. i < length [?tf\<lparr>Input := ''Hello ''\<rparr>] \<and> Template demo_engine ([?tf\<lparr>Input := ''Hello ''\<rparr>] ! i) = Inl err \<and>
               (\<forall>j < i. \<exists>tf. Template demo_engine ([?tf\<lparr>Input := ''Hello ''\<rparr>] ! j) = Inr tf)
             \<longrightarrow> Run demo_engine [''N=World''] ?flags example_fs = (Some err, example_fs)"
    by blast
  from this [rule_format, of 0 "TemplateEvalError (MissingVariable ''NAME'')"] t
  have "Run demo_engine [''N=World''] ?flags example_fs
     = (Some (TemplateEvalError (MissingVariable ''NAME'')), example_fs)" by simp
  with rd no show ?thesis by simp
qed

end

